theory Spec2Isabelle
  imports Main
begin

section \<open>Text, characters and the Unicode tables\<close>

text \<open>
  A Python \<open>str\<close> is a sequence of Unicode code points; it is modelled as a list of
  natural numbers.  The classification of the ASCII code points (below 128) is written
  out.  For every other code point the answer comes from the Unicode character database
  of the interpreter, which is not part of the program: it is the parameter \<open>U\<close> of
  every function that looks at character classes, and all general theorems hold for
  every \<open>U\<close>.
\<close>

type_synonym ustring = "nat list"

definition ustr :: "string \<Rightarrow> ustring" where
  "ustr s = map of_char s"

record unicode =
  uc_space :: "nat \<Rightarrow> bool"
  uc_alnum :: "nat \<Rightarrow> bool"
  uc_decimal :: "nat \<Rightarrow> bool"
  uc_ieq :: "nat \<Rightarrow> nat \<Rightarrow> bool"
  uc_lower :: "ustring \<Rightarrow> ustring"

text \<open>\<open>str.isspace\<close> of one character, which is also the class \<open>\s\<close> of \<open>re\<close> and
  what \<open>str.strip()\<close> removes: tab, line feed, vertical tab, form feed, carriage
  return, the four separators 28 to 31 and the space.\<close>

definition is_space :: "unicode \<Rightarrow> nat \<Rightarrow> bool" where
  "is_space U c =
     (if c < 128 then (9 \<le> c \<and> c \<le> 13) \<or> (28 \<le> c \<and> c \<le> 32) else uc_space U c)"

text \<open>The class \<open>\w\<close>: alphanumeric characters and the underscore.\<close>

definition is_word :: "unicode \<Rightarrow> nat \<Rightarrow> bool" where
  "is_word U c =
     (if c < 128
      then (48 \<le> c \<and> c \<le> 57) \<or> (65 \<le> c \<and> c \<le> 90) \<or> (97 \<le> c \<and> c \<le> 122) \<or> c = 95
      else uc_alnum U c)"

text \<open>The class \<open>\d\<close>: decimal digits.\<close>

definition is_digit :: "unicode \<Rightarrow> nat \<Rightarrow> bool" where
  "is_digit U c = (if c < 128 then 48 \<le> c \<and> c \<le> 57 else uc_decimal U c)"

definition ascii_lower :: "nat \<Rightarrow> nat" where
  "ascii_lower c = (if 65 \<le> c \<and> c \<le> 90 then c + 32 else c)"

text \<open>\<open>str.lower()\<close>: an ASCII string is lowered character by character; any other
  string is lowered by the Unicode tables (where one character may become several and
  the result may depend on the neighbours).\<close>

definition str_lower :: "unicode \<Rightarrow> ustring \<Rightarrow> ustring" where
  "str_lower U s = (if list_all (\<lambda>c. c < 128) s then map ascii_lower s else uc_lower U s)"

text \<open>A literal of a pattern compiled with \<open>re.I\<close> against a character of the text.\<close>

definition ci_eq :: "unicode \<Rightarrow> nat \<Rightarrow> nat \<Rightarrow> bool" where
  "ci_eq U c p = (if c < 128 \<and> p < 128 then ascii_lower c = ascii_lower p else uc_ieq U c p)"

section \<open>String methods\<close>

fun startswith :: "ustring \<Rightarrow> ustring \<Rightarrow> bool" where
  "startswith s [] = True"
| "startswith [] (p # ps) = False"
| "startswith (x # xs) (p # ps) = (x = p \<and> startswith xs ps)"

text \<open>\<open>sub in s\<close>.\<close>

fun str_in :: "ustring \<Rightarrow> ustring \<Rightarrow> bool" where
  "str_in sub [] = (sub = [])"
| "str_in sub (x # xs) = (startswith (x # xs) sub \<or> str_in sub xs)"

text \<open>\<open>s.replace(old, new)\<close>: every occurrence, leftmost first, without overlap.  For an
  empty \<open>old\<close> Python puts \<open>new\<close> before every character and at the end.\<close>

function str_replace :: "ustring \<Rightarrow> ustring \<Rightarrow> ustring \<Rightarrow> ustring" where
  "str_replace old new [] = (if old = [] then new else [])"
| "str_replace old new (x # xs) =
     (if old = [] then new @ x # str_replace old new xs
      else if startswith (x # xs) old then new @ str_replace old new (drop (length old) (x # xs))
      else x # str_replace old new xs)"
  by pat_completeness auto
termination
  by (relation "measure (\<lambda>(old, new, s). length s)") (auto simp: neq_Nil_conv)

definition strip_chars :: "(nat \<Rightarrow> bool) \<Rightarrow> ustring \<Rightarrow> ustring" where
  "strip_chars P s = rev (dropWhile P (rev (dropWhile P s)))"

text \<open>\<open>s.strip()\<close> and \<open>s.strip(chars)\<close>.\<close>

definition str_strip :: "unicode \<Rightarrow> ustring \<Rightarrow> ustring" where
  "str_strip U s = strip_chars (is_space U) s"

definition str_strip_set :: "ustring \<Rightarrow> ustring \<Rightarrow> ustring" where
  "str_strip_set chars s = strip_chars (\<lambda>c. c \<in> set chars) s"

text \<open>\<open>sep.join(xs)\<close>.\<close>

fun str_join :: "ustring \<Rightarrow> ustring list \<Rightarrow> ustring" where
  "str_join sep [] = []"
| "str_join sep [x] = x"
| "str_join sep (x # y # ys) = x @ sep @ str_join sep (y # ys)"

text \<open>\<open>html.escape(s)\<close> with its default \<open>quote=True\<close>, as the library writes it: five
  replacements, the ampersand first.\<close>

definition html_escape :: "ustring \<Rightarrow> ustring" where
  "html_escape s =
     str_replace (ustr [CHR 0x27]) (ustr ''&#x27;'')
       (str_replace (ustr [CHR 0x22]) (ustr ''&quot;'')
         (str_replace (ustr ''>'') (ustr ''&gt;'')
           (str_replace (ustr ''<'') (ustr ''&lt;'')
             (str_replace (ustr ''&'') (ustr ''&amp;'') s))))"

section \<open>Regular expressions\<close>

text \<open>
  The patterns of the program use single-character classes, the quantifiers \<open>*\<close>, \<open>+\<close>,
  \<open>?\<close> and \<open>*?\<close> on such classes, the anchors \<open>^\<close>, \<open>$\<close> and \<open>\b\<close>, capture groups and
  one alternation between literal sequences.  A pattern is a list of items; the matcher
  is the backtracking matcher of \<open>re\<close>: at every choice it tries the alternatives in the
  order of the library (a greedy quantifier the longer match first, a lazy one the
  shorter first, an alternation from left to right) and returns the first success.
\<close>

record flags =
  multiline :: bool
  dotall :: bool
  ignorecase :: bool

datatype atom = Lit nat | Dot | W | S | NS | D

datatype cls = Is atom | In "atom list" | NotIn "atom list"

datatype item =
    One cls | Star cls | Plus cls | Opt cls | Lazy cls
  | Bol | Eol | WordB | Open nat | Close nat | Alt "cls list list"

fun atom_match :: "unicode \<Rightarrow> flags \<Rightarrow> atom \<Rightarrow> nat \<Rightarrow> bool" where
  "atom_match U fl (Lit p) c = (if ignorecase fl then ci_eq U c p else c = p)"
| "atom_match U fl Dot c = (dotall fl \<or> c \<noteq> 10)"
| "atom_match U fl W c = is_word U c"
| "atom_match U fl S c = is_space U c"
| "atom_match U fl NS c = (\<not> is_space U c)"
| "atom_match U fl D c = is_digit U c"

fun cls_match :: "unicode \<Rightarrow> flags \<Rightarrow> cls \<Rightarrow> nat \<Rightarrow> bool" where
  "cls_match U fl (Is a) c = atom_match U fl a c"
| "cls_match U fl (In as) c = list_ex (\<lambda>a. atom_match U fl a c) as"
| "cls_match U fl (NotIn as) c = (\<not> list_ex (\<lambda>a. atom_match U fl a c) as)"

text \<open>The position in the text is a pair: the characters before it, nearest first, and the
  characters from it on.  \<open>^\<close> matches at the start of the text and, with \<open>re.M\<close>, after
  every line feed; \<open>$\<close> at the end of the text, with \<open>re.M\<close> before every line feed and
  without it before a line feed that ends the text; \<open>\b\<close> between a word character and
  a character that is none, or an end of the text.\<close>

definition at_bol :: "flags \<Rightarrow> ustring \<Rightarrow> bool" where
  "at_bol fl bef = (case bef of [] \<Rightarrow> True | b # _ \<Rightarrow> multiline fl \<and> b = 10)"

definition at_eol :: "flags \<Rightarrow> ustring \<Rightarrow> bool" where
  "at_eol fl rest =
     (case rest of [] \<Rightarrow> True | x # xs \<Rightarrow> x = 10 \<and> (multiline fl \<or> xs = []))"

definition at_wordb :: "unicode \<Rightarrow> ustring \<Rightarrow> ustring \<Rightarrow> bool" where
  "at_wordb U bef rest =
     ((case bef of [] \<Rightarrow> False | b # _ \<Rightarrow> is_word U b) \<noteq>
      (case rest of [] \<Rightarrow> False | x # _ \<Rightarrow> is_word U x))"

type_synonym groups = "nat \<Rightarrow> ustring option"

fun m_seq :: "unicode \<Rightarrow> flags \<Rightarrow> cls list \<Rightarrow> ustring \<Rightarrow> ustring \<Rightarrow> (ustring \<times> ustring) option" where
  "m_seq U fl [] bef rest = Some (bef, rest)"
| "m_seq U fl (c # cs) bef [] = None"
| "m_seq U fl (c # cs) bef (x # xs) =
     (if cls_match U fl c x then m_seq U fl cs (x # bef) xs else None)"

text \<open>\<open>m U fl items bef rest st g\<close> matches the items at the position \<open>(bef, rest)\<close>;
  \<open>st\<close> holds where each open group began (as the number of characters before it) and
  \<open>g\<close> the text of each closed group.  The result is the position after the match and
  the groups.\<close>

fun item_size :: "item \<Rightarrow> nat" where
  "item_size (Alt alts) = Suc (length alts)"
| "item_size _ = 1"

function (sequential) m :: "unicode \<Rightarrow> flags \<Rightarrow> item list \<Rightarrow> ustring \<Rightarrow> ustring \<Rightarrow> (nat \<Rightarrow> nat) \<Rightarrow> groups
          \<Rightarrow> (ustring \<times> ustring \<times> groups) option" where
  "m U fl [] bef rest st g = Some (bef, rest, g)"
| "m U fl (One c # is) bef rest st g =
     (case rest of [] \<Rightarrow> None
      | x # xs \<Rightarrow> if cls_match U fl c x then m U fl is (x # bef) xs st g else None)"
| "m U fl (Star c # is) bef rest st g =
     (case rest of [] \<Rightarrow> m U fl is bef rest st g
      | x # xs \<Rightarrow>
          if cls_match U fl c x
          then (case m U fl (Star c # is) (x # bef) xs st g of
                  Some r \<Rightarrow> Some r
                | None \<Rightarrow> m U fl is bef rest st g)
          else m U fl is bef rest st g)"
| "m U fl (Plus c # is) bef rest st g =
     (case rest of [] \<Rightarrow> None
      | x # xs \<Rightarrow> if cls_match U fl c x then m U fl (Star c # is) (x # bef) xs st g else None)"
| "m U fl (Opt c # is) bef rest st g =
     (case rest of [] \<Rightarrow> m U fl is bef rest st g
      | x # xs \<Rightarrow>
          if cls_match U fl c x
          then (case m U fl is (x # bef) xs st g of
                  Some r \<Rightarrow> Some r
                | None \<Rightarrow> m U fl is bef rest st g)
          else m U fl is bef rest st g)"
| "m U fl (Lazy c # is) bef rest st g =
     (case m U fl is bef rest st g of
        Some r \<Rightarrow> Some r
      | None \<Rightarrow>
          (case rest of [] \<Rightarrow> None
           | x # xs \<Rightarrow> if cls_match U fl c x then m U fl (Lazy c # is) (x # bef) xs st g else None))"
| "m U fl (Bol # is) bef rest st g = (if at_bol fl bef then m U fl is bef rest st g else None)"
| "m U fl (Eol # is) bef rest st g = (if at_eol fl rest then m U fl is bef rest st g else None)"
| "m U fl (WordB # is) bef rest st g =
     (if at_wordb U bef rest then m U fl is bef rest st g else None)"
| "m U fl (Open n # is) bef rest st g = m U fl is bef rest (st(n := length bef)) g"
| "m U fl (Close n # is) bef rest st g =
     m U fl is bef rest st (g(n := Some (rev (take (length bef - st n) bef))))"
| "m U fl (Alt [] # is) bef rest st g = None"
| "m U fl (Alt (a # as) # is) bef rest st g =
     (case m_seq U fl a bef rest of
        None \<Rightarrow> m U fl (Alt as # is) bef rest st g
      | Some (bef', rest') \<Rightarrow>
          (case m U fl is bef' rest' st g of
             Some r \<Rightarrow> Some r
           | None \<Rightarrow> m U fl (Alt as # is) bef rest st g))"
  by pat_completeness auto
termination
  by (relation "measures [\<lambda>(U, fl, items, bef, rest, st, g). sum_list (map item_size items),
                          \<lambda>(U, fl, items, bef, rest, st, g). length rest]") auto

text \<open>The text of group \<open>n\<close>.  A group that took no part in the match is \<open>None\<close> in
  Python; it is read as the empty text, which is what \<open>m.group(n) or ""\<close> and the
  expansion of \<open>\n\<close> in a replacement template give.\<close>

definition grp :: "groups \<Rightarrow> nat \<Rightarrow> ustring" where
  "grp g n = (case g n of None \<Rightarrow> [] | Some v \<Rightarrow> v)"

definition no_groups :: groups where
  "no_groups = (\<lambda>n. None)"

text \<open>\<open>cnt\<close> is the number of replacements still allowed, \<open>None\<close> for no limit.\<close>

fun spent :: "nat option \<Rightarrow> bool" where
  "spent None = False"
| "spent (Some n) = (n = 0)"

fun less_one :: "nat option \<Rightarrow> nat option" where
  "less_one None = None"
| "less_one (Some n) = Some (n - 1)"

text \<open>\<open>re.sub\<close> from the position \<open>(bef, rest)\<close> on: the leftmost match is replaced and the
  scan goes on behind it; where nothing matches, one character is copied.  After a match
  of the empty text one character is copied (no pattern of this program matches the
  empty text).  Group 0 is the whole match.\<close>

function re_sub_from :: "unicode \<Rightarrow> flags \<Rightarrow> item list \<Rightarrow> (groups \<Rightarrow> ustring) \<Rightarrow> nat option
                         \<Rightarrow> ustring \<Rightarrow> ustring \<Rightarrow> ustring" where
  "re_sub_from U fl re repl cnt bef rest =
     (if spent cnt then rest
      else
        (case m U fl re bef rest (\<lambda>n. 0) no_groups of
           None \<Rightarrow>
             (case rest of [] \<Rightarrow> []
              | x # xs \<Rightarrow> x # re_sub_from U fl re repl cnt (x # bef) xs)
         | Some (bef', rest', g) \<Rightarrow>
             if length rest' < length rest
             then repl (g(0 := Some (take (length rest - length rest') rest)))
                    @ re_sub_from U fl re repl (less_one cnt) bef' rest'
             else repl (g(0 := Some []))
                    @ (case rest of [] \<Rightarrow> []
                       | x # xs \<Rightarrow> x # re_sub_from U fl re repl (less_one cnt) (x # bef) xs)))"
  by pat_completeness auto
termination
  by (relation "measure (\<lambda>(U, fl, re, repl, cnt, bef, rest). length rest)") auto

declare re_sub_from.simps [simp del]

definition re_sub :: "unicode \<Rightarrow> flags \<Rightarrow> item list \<Rightarrow> (groups \<Rightarrow> ustring) \<Rightarrow> nat option
                      \<Rightarrow> ustring \<Rightarrow> ustring" where
  "re_sub U fl re repl cnt s = re_sub_from U fl re repl cnt [] s"

text \<open>\<open>re.search\<close>: the groups of the leftmost match.\<close>

fun re_search_from :: "unicode \<Rightarrow> flags \<Rightarrow> item list \<Rightarrow> ustring \<Rightarrow> ustring \<Rightarrow> groups option" where
  "re_search_from U fl re bef rest =
     (case m U fl re bef rest (\<lambda>n. 0) no_groups of
        Some (bef', rest', g) \<Rightarrow> Some (g(0 := Some (take (length rest - length rest') rest)))
      | None \<Rightarrow>
          (case rest of [] \<Rightarrow> None
           | x # xs \<Rightarrow> re_search_from U fl re (x # bef) xs))"

declare re_search_from.simps [simp del]

definition re_search :: "unicode \<Rightarrow> flags \<Rightarrow> item list \<Rightarrow> ustring \<Rightarrow> groups option" where
  "re_search U fl re s = re_search_from U fl re [] s"

text \<open>\<open>re.match\<close>, used as a truth value: is there a match at the start of the text.\<close>

definition re_match :: "unicode \<Rightarrow> flags \<Rightarrow> item list \<Rightarrow> ustring \<Rightarrow> bool" where
  "re_match U fl re s = (m U fl re [] s (\<lambda>n. 0) no_groups \<noteq> None)"

text \<open>\<open>re.split\<close> for a pattern without groups: the pieces between the matches; \<open>cur\<close> is
  the piece being read, last character first.\<close>

function re_split_from :: "unicode \<Rightarrow> flags \<Rightarrow> item list \<Rightarrow> ustring \<Rightarrow> ustring \<Rightarrow> ustring
                           \<Rightarrow> ustring list" where
  "re_split_from U fl re bef rest cur =
     (case m U fl re bef rest (\<lambda>n. 0) no_groups of
        None \<Rightarrow>
          (case rest of [] \<Rightarrow> [rev cur]
           | x # xs \<Rightarrow> re_split_from U fl re (x # bef) xs (x # cur))
      | Some (bef', rest', g) \<Rightarrow>
          if length rest' < length rest
          then rev cur # re_split_from U fl re bef' rest' []
          else (case rest of [] \<Rightarrow> [rev cur]
                | x # xs \<Rightarrow> re_split_from U fl re (x # bef) xs (x # cur)))"
  by pat_completeness auto
termination
  by (relation "measure (\<lambda>(U, fl, re, bef, rest, cur). length rest)") auto

declare re_split_from.simps [simp del]

definition re_split :: "unicode \<Rightarrow> flags \<Rightarrow> item list \<Rightarrow> ustring \<Rightarrow> ustring list" where
  "re_split U fl re s = re_split_from U fl re [] s []"

text \<open>A literal piece of a pattern.\<close>

definition lit :: "string \<Rightarrow> item list" where
  "lit s = map (\<lambda>c. One (Is (Lit (of_char c)))) s"

definition lits :: "string \<Rightarrow> cls list" where
  "lits s = map (\<lambda>c. Is (Lit (of_char c))) s"

definition no_flags :: flags where
  "no_flags = \<lparr>multiline = False, dotall = False, ignorecase = False\<rparr>"

definition re_M :: flags where
  "re_M = \<lparr>multiline = True, dotall = False, ignorecase = False\<rparr>"

definition re_DOTALL :: flags where
  "re_DOTALL = \<lparr>multiline = False, dotall = True, ignorecase = False\<rparr>"

definition re_I :: flags where
  "re_I = \<lparr>multiline = False, dotall = False, ignorecase = True\<rparr>"

section \<open>The program\<close>

subsection \<open>slugify\<close>

text \<open>The pattern \<^verbatim>\<open>[^\w\-]+\<close>.\<close>

definition slug_re :: "item list" where
  "slug_re = [Plus (NotIn [W, Lit 45])]"

definition slugify :: "unicode \<Rightarrow> ustring \<Rightarrow> ustring" where
  "slugify U name =
     (let s = str_lower U (str_strip_set (ustr ''-'')
                (re_sub U no_flags slug_re (\<lambda>g. ustr ''-'') None name))
      in if s = [] then ustr ''post'' else s)"

subsection \<open>compile_markdown\<close>

text \<open>The pattern \<^verbatim>\<open>```(\w*)\n(.*?)\n```\<close>, compiled with \<open>re.DOTALL\<close>.\<close>

definition code_re :: "item list" where
  "code_re = lit ''```'' @ [Open 1, Star (Is W), Close 1, One (Is (Lit 10)),
                            Open 2, Lazy (Is Dot), Close 2, One (Is (Lit 10))] @ lit ''```''"

definition repl_code :: "unicode \<Rightarrow> groups \<Rightarrow> ustring" where
  "repl_code U g =
     (let lang = str_strip U (grp g 1);
          code = html_escape (grp g 2)
      in if lang \<noteq> []
         then ustr ''<pre><code class='' @ [39] @ ustr ''language-'' @ html_escape lang @ [39]
                @ ustr ''>'' @ code @ ustr ''</code></pre>''
         else ustr ''<pre><code>'' @ code @ ustr ''</code></pre>'')"

text \<open>The patterns \<^verbatim>\<open>^###\s*(.+)$\<close>, \<^verbatim>\<open>^##\s*(.+)$\<close> and \<^verbatim>\<open>^#\s*(.+)$\<close>, compiled with
  \<open>re.MULTILINE\<close>, and the template \<^verbatim>\<open><hN>\1</hN>\<close>.\<close>

definition heading_re :: "nat \<Rightarrow> item list" where
  "heading_re n = Bol # replicate n (One (Is (Lit 35)))
                    @ [Star (Is S), Open 1, Plus (Is Dot), Close 1, Eol]"

definition repl_heading :: "string \<Rightarrow> groups \<Rightarrow> ustring" where
  "repl_heading tag g = ustr ''<'' @ ustr tag @ ustr ''>'' @ grp g 1 @ ustr ''</'' @ ustr tag @ ustr ''>''"

text \<open>The pattern \<^verbatim>\<open>(https?://[^\s<]+)\<close> and the template \<^verbatim>\<open><a href='\1'>\1</a>\<close>.\<close>

definition url_re :: "item list" where
  "url_re = [Open 1] @ lit ''http'' @ [Opt (Is (Lit 115))] @ lit ''://''
              @ [Plus (NotIn [S, Lit 60]), Close 1]"

definition repl_url :: "groups \<Rightarrow> ustring" where
  "repl_url g = ustr ''<a href='' @ [39] @ grp g 1 @ [39] @ ustr ''>'' @ grp g 1 @ ustr ''</a>''"

text \<open>The pattern \<^verbatim>\<open>\n\s*\n\<close>.\<close>

definition blank_re :: "item list" where
  "blank_re = [One (Is (Lit 10)), Star (Is S), One (Is (Lit 10))]"

text \<open>The pattern \<^verbatim>\<open>^<(h\d|pre|ul|ol|blockquote|p|div)\<close>, compiled with \<open>re.I\<close>.\<close>

definition block_re :: "item list" where
  "block_re = [Bol, One (Is (Lit 60)), Open 1,
               Alt [[Is (Lit 104), Is D], lits ''pre'', lits ''ul'', lits ''ol'',
                    lits ''blockquote'', lits ''p'', lits ''div''],
               Close 1]"

text \<open>The loop over the parts.\<close>

fun blocks :: "unicode \<Rightarrow> ustring list \<Rightarrow> ustring list" where
  "blocks U [] = []"
| "blocks U (p # ps) =
     (let p = str_strip U p
      in if p = [] then blocks U ps
         else if re_match U re_I block_re p then p # blocks U ps
         else (ustr ''<p>'' @ str_replace [10] (ustr ''<br>'') p @ ustr ''</p>'') # blocks U ps)"

definition normalize_newlines :: "ustring \<Rightarrow> ustring" where
  "normalize_newlines md = str_replace [13] [10] (str_replace [13, 10] [10] md)"

definition code_step :: "unicode \<Rightarrow> ustring \<Rightarrow> ustring" where
  "code_step U s = re_sub U re_DOTALL code_re (repl_code U) None s"

definition heading_step :: "unicode \<Rightarrow> ustring \<Rightarrow> ustring" where
  "heading_step U s =
     re_sub U re_M (heading_re 1) (repl_heading ''h2'') None
       (re_sub U re_M (heading_re 2) (repl_heading ''h3'') None
         (re_sub U re_M (heading_re 3) (repl_heading ''h4'') None s))"

definition autolink_step :: "unicode \<Rightarrow> ustring \<Rightarrow> ustring" where
  "autolink_step U s = re_sub U no_flags url_re repl_url None s"

definition paragraph_step :: "unicode \<Rightarrow> ustring \<Rightarrow> ustring" where
  "paragraph_step U s = str_join [10, 10] (blocks U (re_split U no_flags blank_re s))"

definition compile_markdown :: "unicode \<Rightarrow> ustring \<Rightarrow> ustring" where
  "compile_markdown U md =
     paragraph_step U (autolink_step U (heading_step U (code_step U (normalize_newlines md))))"

subsection \<open>extract_title\<close>

text \<open>The patterns \<^verbatim>\<open>^#\s+(.+)$\<close> and \<^verbatim>\<open>^##\s+(.+)$\<close>, compiled with \<open>re.MULTILINE\<close>.\<close>

definition title_re :: "nat \<Rightarrow> item list" where
  "title_re n = Bol # replicate n (One (Is (Lit 35)))
                  @ [Plus (Is S), Open 1, Plus (Is Dot), Close 1, Eol]"

definition extract_title :: "unicode \<Rightarrow> ustring \<Rightarrow> ustring \<Rightarrow> ustring" where
  "extract_title U md fallback =
     (case re_search U re_M (title_re 1) md of
        Some g \<Rightarrow> str_strip U (grp g 1)
      | None \<Rightarrow>
          (case re_search U re_M (title_re 2) md of
             Some g \<Rightarrow> str_strip U (grp g 1)
           | None \<Rightarrow> fallback))"

subsection \<open>main\<close>

text \<open>
  The world of \<open>main\<close>: the directory \<open>blogs\<close> (absent, or its entries in the order of
  \<open>iterdir\<close>), the template file (absent, or its decoded text) and the three paths as
  they print.  An entry has its name, whether it is a regular file, its modification
  time (only the order of the times is used) and its text as \<open>read_text_safe\<close>
  decodes it.  Every path that exists is taken to be of the expected kind and readable.
\<close>

record entry =
  e_name :: ustring
  e_is_file :: bool
  e_mtime :: int
  e_text :: ustring

record world =
  blogs_dir :: "entry list option"
  template :: "ustring option"
  blogs_dir_path :: ustring
  template_path :: ustring
  out_path :: ustring

text \<open>What a run leaves behind: the lines printed on the two streams, the exit status
  and the text written to the output file, if it was written.\<close>

record outcome =
  stdout :: "ustring list"
  stderr :: "ustring list"
  exit_status :: nat
  written :: "ustring option"

text \<open>\<open>s.rfind(".")\<close>, and \<open>suffix\<close> and \<open>stem\<close> of \<open>pathlib\<close> on a file name.\<close>

fun rfind_dot :: "ustring \<Rightarrow> nat option" where
  "rfind_dot [] = None"
| "rfind_dot (x # xs) =
     (case rfind_dot xs of
        Some i \<Rightarrow> Some (Suc i)
      | None \<Rightarrow> if x = 46 then Some 0 else None)"

definition suffix :: "ustring \<Rightarrow> ustring" where
  "suffix name =
     (case rfind_dot name of
        Some i \<Rightarrow> if 0 < i \<and> i < length name - 1 then drop i name else []
      | None \<Rightarrow> [])"

definition stem :: "ustring \<Rightarrow> ustring" where
  "stem name =
     (case rfind_dot name of
        Some i \<Rightarrow> if 0 < i \<and> i < length name - 1 then take i name else name
      | None \<Rightarrow> name)"

text \<open>The order of \<open>str\<close> (by code points) and \<open>sorted\<close> on names.\<close>

fun str_le :: "ustring \<Rightarrow> ustring \<Rightarrow> bool" where
  "str_le [] ys = True"
| "str_le (x # xs) [] = False"
| "str_le (x # xs) (y # ys) = (x < y \<or> (x = y \<and> str_le xs ys))"

fun insert_sorted :: "ustring \<Rightarrow> ustring list \<Rightarrow> ustring list" where
  "insert_sorted a [] = [a]"
| "insert_sorted a (b # bs) = (if str_le a b then a # b # bs else b # insert_sorted a bs)"

definition sorted_names :: "ustring list \<Rightarrow> ustring list" where
  "sorted_names xs = foldr insert_sorted xs []"

text \<open>\<open>str(n)\<close> for a natural number.\<close>

fun str_of_nat :: "nat \<Rightarrow> ustring" where
  "str_of_nat n = (if n < 10 then [48 + n] else str_of_nat (n div 10) @ [48 + n mod 10])"

declare str_of_nat.simps [simp del]

text \<open>The expansion of a replacement template that names no group.  A template without
  a backslash stands for itself; one with a backslash is expanded by the library, which
  may raise \<open>re.error\<close> (\<open>None\<close>); that expansion is a parameter.\<close>

datatype error = Re_error

definition expand_template :: "(ustring \<Rightarrow> ustring option) \<Rightarrow> ustring \<Rightarrow> ustring option" where
  "expand_template lib t = (if 92 \<in> set t then lib t else Some t)"

definition feed_marker :: ustring where
  "feed_marker = ustr ''###BLOGS###''"

definition contents_marker :: ustring where
  "contents_marker = ustr ''###BLOG-CONTENTS###''"

definition blogs_start :: ustring where
  "blogs_start = ustr ''<!-- BLOGS-START -->''"

definition blogs_end :: ustring where
  "blogs_end = ustr ''<!-- BLOGS-END -->''"

text \<open>The pattern \<^verbatim>\<open><!-- BLOGS-START -->[\s\S]*?<!-- BLOGS-END -->\<close>.\<close>

definition region_re :: "item list" where
  "region_re = lit ''<!-- BLOGS-START -->'' @ [Lazy (In [S, NS])] @ lit ''<!-- BLOGS-END -->''"

text \<open>The pattern \<^verbatim>\<open>(<nav\b[^>]*>)([\s\S]*?)(</nav>)\<close>.\<close>

definition nav_re :: "item list" where
  "nav_re = [Open 1] @ lit ''<nav'' @ [WordB, Star (NotIn [Lit 62]), One (Is (Lit 62)), Close 1,
             Open 2, Lazy (In [S, NS]), Close 2, Open 3] @ lit ''</nav>'' @ [Close 3]"

text \<open>Lines 94 to 103: the feed goes into the template.\<close>

definition insert_feed :: "unicode \<Rightarrow> (ustring \<Rightarrow> ustring option) \<Rightarrow> ustring \<Rightarrow> ustring
                           \<Rightarrow> error + ustring" where
  "insert_feed U lib tpl posts_block =
     (if str_in feed_marker tpl then Inr (str_replace feed_marker posts_block tpl)
      else if str_in blogs_start tpl \<and> str_in blogs_end tpl
      then (case expand_template lib (blogs_start @ [10] @ posts_block @ [10] @ blogs_end) of
              None \<Rightarrow> Inl Re_error
            | Some r \<Rightarrow> Inr (re_sub U no_flags region_re (\<lambda>g. r) (Some 1) tpl))
      else if str_in (ustr ''</main>'') tpl
      then Inr (str_replace (ustr ''</main>'') (posts_block @ [10] @ ustr ''</main>'') tpl)
      else Inr (tpl @ [10, 10] @ posts_block))"

text \<open>Lines 105 to 110: the contents list goes into the result.\<close>

definition insert_contents :: "unicode \<Rightarrow> ustring \<Rightarrow> ustring \<Rightarrow> ustring" where
  "insert_contents U out_html contents_block =
     (if str_in contents_marker out_html
      then str_replace contents_marker contents_block out_html
      else if str_in (ustr ''<nav'') out_html \<and> str_in (ustr ''</nav>'') out_html
      then re_sub U no_flags nav_re
             (\<lambda>g. grp g 1 @ [10] @ contents_block @ [10] @ grp g 3) (Some 1) out_html
      else contents_block @ [10, 10] @ out_html)"

text \<open>Lines 75 to 82: one post gives its fragment, its entry of the contents list and a
  line of output.\<close>

definition fragment :: "unicode \<Rightarrow> entry \<Rightarrow> ustring" where
  "fragment U p =
     (let anchor = slugify U (stem (e_name p))
      in ustr ''<a id='' @ [39] @ anchor @ [39] @ ustr ''></a>'' @ [10]
           @ ustr ''<article class='' @ [39] @ ustr ''post'' @ [39] @ ustr '' id='' @ [39] @ anchor
           @ [39] @ ustr ''>'' @ [10] @ compile_markdown U (e_text p) @ [10] @ ustr ''</article>'')"

definition contents_entry :: "unicode \<Rightarrow> entry \<Rightarrow> ustring" where
  "contents_entry U p =
     ustr ''<a href='' @ [39] @ ustr ''#'' @ slugify U (stem (e_name p)) @ [39] @ ustr ''>- ''
       @ html_escape (extract_title U (e_text p) (stem (e_name p))) @ ustr ''</a>''"

definition added_line :: "unicode \<Rightarrow> entry \<Rightarrow> ustring" where
  "added_line U p =
     ustr ''Added: '' @ e_name p @ ustr '' -> anchor #'' @ slugify U (stem (e_name p))"

definition no_posts :: ustring where
  "no_posts = ustr ''<p class='' @ [34] @ ustr ''translatable'' @ [34] @ ustr '' data-en='' @ [34]
                @ ustr ''No posts yet.'' @ [34] @ ustr '' data-de='' @ [34]
                @ ustr ''Noch keine Beitr'' @ [228] @ ustr ''ge.'' @ [34] @ ustr ''>No posts yet.</p>''"


text \<open>
  The body of \<open>main\<close> is modelled too, statement by statement, with line 117 repaired:
  it is read without the stray backslashes, that is as the call of \<open>re.sub\<close> with the
  pattern \<^verbatim>\<open>^.*id='([^']+)'.*$\<close> and the template that stands for group 1.  The
  function \<open>main\<close> below is therefore what a run does once that line is repaired, not
  what the file as shipped does; lines 54 to 116 are as shipped.
\<close>

definition anchor_re :: "item list" where
  "anchor_re = [Bol, Star (Is Dot)] @ lit ''id='' @ [One (Is (Lit 39)), Open 1,
                Plus (NotIn [Lit 39]), Close 1, One (Is (Lit 39)), Star (Is Dot), Eol]"

definition main :: "unicode \<Rightarrow> (ustring \<Rightarrow> ustring option) \<Rightarrow> world \<Rightarrow> outcome" where
  "main U lib w =
     (let out0 = [ustr ''Running generate_blogs.py'']
      in case blogs_dir w of
           None \<Rightarrow>
             \<lparr>stdout = out0,
              stderr = [ustr ''ERROR: blogs directory not found: '' @ blogs_dir_path w],
              exit_status = 1, written = None\<rparr>
         | Some entries \<Rightarrow>
             (let md_files = filter (\<lambda>p. e_is_file p
                                          \<and> str_lower U (suffix (e_name p)) = ustr ''.md''
                                          \<and> \<not> startswith (e_name p) (ustr ''_'')) entries;
                  out1 = out0 @
                    (if md_files = []
                     then [ustr ''No markdown files found in blogs/ '' @ [8212]
                             @ ustr '' will write template with no posts.'']
                     else ustr ''Found markdown files:''
                            # map (\<lambda>n. ustr '' - '' @ n) (sorted_names (map e_name md_files)));
                  md_files = rev (sort_key e_mtime (rev md_files));
                  posts_fragments = map (fragment U) md_files;
                  contents = map (contents_entry U) md_files;
                  out2 = out1 @ map (added_line U) md_files;
                  posts_block = (if posts_fragments \<noteq> []
                                 then str_join ([10] @ ustr ''<hr>'' @ [10]) posts_fragments
                                 else no_posts);
                  contents_block = str_join (ustr ''<br>'') contents
              in case template w of
                   None \<Rightarrow>
                     \<lparr>stdout = out2,
                      stderr = [ustr ''ERROR: Template file not found: '' @ template_path w],
                      exit_status = 1, written = None\<rparr>
                 | Some tpl \<Rightarrow>
                     (case insert_feed U lib tpl posts_block of
                        Inl e \<Rightarrow>
                          \<lparr>stdout = out2, stderr = [ustr ''re.error''],
                           exit_status = 1, written = None\<rparr>
                      | Inr out_html \<Rightarrow>
                          (let out_html = insert_contents U out_html contents_block
                           in \<lparr>stdout = out2
                                  @ [ustr ''Wrote '' @ out_path w @ ustr '' with ''
                                       @ str_of_nat (length posts_fragments) @ ustr '' posts.'']
                                  @ (if posts_fragments \<noteq> []
                                     then [ustr ''Generated anchors: ''
                                             @ str_join (ustr '', '')
                                                 (map (re_sub U no_flags anchor_re
                                                         (\<lambda>g. grp g 1) None) posts_fragments)]
                                     else []),
                                stderr = [], exit_status = 0,
                                written = Some out_html\<rparr>))))"

section \<open>Auxiliary notions for the proofs\<close>

text \<open>The position \<open>(bef', rest')\<close> lies at or behind the position \<open>(bef, rest)\<close> of the
  same text.\<close>

definition adv :: "ustring \<Rightarrow> ustring \<Rightarrow> ustring \<Rightarrow> ustring \<Rightarrow> bool" where
  "adv bef rest bef' rest' = (\<exists>mt. rest = mt @ rest' \<and> bef' = rev mt @ bef)"

text \<open>The characters that \<open>slugify\<close> keeps, and those it leaves as they are.\<close>

definition slug_char :: "unicode \<Rightarrow> nat \<Rightarrow> bool" where
  "slug_char U c = (is_word U c \<or> c = 45)"

definition slug_fix :: "unicode \<Rightarrow> nat \<Rightarrow> bool" where
  "slug_fix U c = (slug_char U c \<and> c < 128 \<and> \<not> (65 \<le> c \<and> c \<le> 90))"

text \<open>Pieces of the heading patterns: \<open>n\<close> hash marks, and the end \<^verbatim>\<open>(.+)$\<close>.\<close>

definition hashes :: "nat \<Rightarrow> item list" where
  "hashes n = replicate n (One (Is (Lit 35)))"

definition line_tail :: "item list" where
  "line_tail = [Open 1, Plus (Is Dot), Close 1, Eol]"

text \<open>The lines of a text (\<open>s.split("\n")\<close>); a line that begins with a hash mark; a
  line whose leading hash marks are followed at once by a character that is no
  whitespace; and the two together: a line that, if it begins with a hash mark, has no
  whitespace behind its hash marks.\<close>

fun lines_of :: "ustring \<Rightarrow> ustring list" where
  "lines_of [] = [[]]"
| "lines_of (x # xs) =
     (if x = 10 then [] # lines_of xs
      else (case lines_of xs of [] \<Rightarrow> [[x]] | l # ls \<Rightarrow> (x # l) # ls))"




text \<open>The second half of the pattern of the code blocks.\<close>

definition code_tail :: "item list" where
  "code_tail = [Open 2, Lazy (Is Dot), Close 2, One (Is (Lit 10))] @ lit ''```''"

text \<open>A fenced block as it stands in the text, with its language tag and its content;
  the element it is to become; a text with several fenced blocks, each with the text
  before it, and the text after the last one; and what is asked of a block: no backtick
  in the text before it, a tag of word characters that are no whitespace, and no line
  of the content that begins with three backticks.\<close>

definition fence :: "ustring \<Rightarrow> ustring \<Rightarrow> ustring" where
  "fence lang body = ustr ''```'' @ lang @ [10] @ body @ [10] @ ustr ''```''"

definition container :: "ustring \<Rightarrow> ustring \<Rightarrow> ustring" where
  "container lang body =
     (if lang = [] then ustr ''<pre><code>'' @ html_escape body @ ustr ''</code></pre>''
      else ustr ''<pre><code class='' @ [39] @ ustr ''language-'' @ html_escape lang @ [39]
             @ ustr ''>'' @ html_escape body @ ustr ''</code></pre>'')"

fun doc_text :: "(ustring \<times> ustring \<times> ustring) list \<Rightarrow> ustring \<Rightarrow> ustring" where
  "doc_text [] post = post"
| "doc_text ((pre, lang, body) # fs) post = pre @ fence lang body @ doc_text fs post"

fun doc_html :: "(ustring \<times> ustring \<times> ustring) list \<Rightarrow> ustring \<Rightarrow> ustring" where
  "doc_html [] post = post"
| "doc_html ((pre, lang, body) # fs) post = pre @ container lang body @ doc_html fs post"

fun fence_ok :: "unicode \<Rightarrow> ustring \<times> ustring \<times> ustring \<Rightarrow> bool" where
  "fence_ok U (pre, lang, body) =
     (96 \<notin> set pre \<and> list_all (\<lambda>c. is_word U c \<and> \<not> is_space U c) lang
      \<and> \<not> str_in ([10] @ ustr ''```'') body)"

text \<open>The characters of the five entities that \<open>html.escape\<close> writes.\<close>

definition entity_chars :: "nat set" where
  "entity_chars = set (ustr ''&#x27;'') \<union> set (ustr ''&quot;'') \<union> set (ustr ''&gt;'')
                    \<union> set (ustr ''&lt;'') \<union> set (ustr ''&amp;'')"

text \<open>The number of places of a text at which a given text begins.\<close>

fun occurrences :: "ustring \<Rightarrow> ustring \<Rightarrow> nat" where
  "occurrences p [] = (if p = [] then 1 else 0)"
| "occurrences p (x # xs) = (if startswith (x # xs) p then 1 else 0) + occurrences p xs"

text \<open>The last part of the pattern of the navigation element.\<close>

definition nav_tail :: "item list" where
  "nav_tail = [Close 2, Open 3] @ lit ''</nav>'' @ [Close 3]"




section \<open>Concrete tables and worlds for the examples\<close>

text \<open>An excerpt of the tables of CPython, enough for the examples below: U+0085 and
  U+00A0 are spaces; U+0130 (capital I with dot above) is a letter whose lower case is
  the two code points U+0069 U+0307; U+0307 (combining dot above) is no letter.\<close>

definition sample_tables :: unicode where
  "sample_tables =
     \<lparr>uc_space = (\<lambda>c. c = 133 \<or> c = 160),
      uc_alnum = (\<lambda>c. c = 304),
      uc_decimal = (\<lambda>c. False),
      uc_ieq = (\<lambda>c p. False),
      uc_lower = (\<lambda>s. concat (map (\<lambda>c. if c = 304 then [105, 775] else [ascii_lower c]) s))\<rparr>"

definition no_lib :: "ustring \<Rightarrow> ustring option" where
  "no_lib t = None"



section \<open>Properties of the matcher\<close>

lemma adv_refl: "adv bef rest bef rest"
  by (simp add: adv_def)

lemma adv_step: "adv (x # bef) xs bef' rest' \<Longrightarrow> adv bef (x # xs) bef' rest'"
proof -
  assume "adv (x # bef) xs bef' rest'"
  then obtain mt where "xs = mt @ rest'" "bef' = rev mt @ x # bef" by (auto simp: adv_def)
  then have "x # xs = (x # mt) @ rest' \<and> bef' = rev (x # mt) @ bef" by simp
  then show ?thesis unfolding adv_def by blast
qed

lemma adv_trans: "adv bef rest b1 r1 \<Longrightarrow> adv b1 r1 b2 r2 \<Longrightarrow> adv bef rest b2 r2"
proof -
  assume "adv bef rest b1 r1" "adv b1 r1 b2 r2"
  then obtain m1 m2 where "rest = m1 @ r1" "b1 = rev m1 @ bef" "r1 = m2 @ r2" "b2 = rev m2 @ b1"
    by (auto simp: adv_def)
  then have "rest = (m1 @ m2) @ r2 \<and> b2 = rev (m1 @ m2) @ bef" by simp
  then show ?thesis unfolding adv_def by blast
qed

lemma m_seq_adv:
  "m_seq U fl cs bef rest = Some (bef', rest') \<Longrightarrow> adv bef rest bef' rest'"
proof (induction cs arbitrary: bef rest)
  case Nil
  then show ?case by (simp add: adv_refl)
next
  case (Cons c cs)
  show ?case
  proof (cases rest)
    case Nil
    with Cons.prems show ?thesis by simp
  next
    case (Cons x xs)
    with Cons.prems have r: "m_seq U fl cs (x # bef) xs = Some (bef', rest')"
      by (simp split: if_splits)
    from Cons.IH [OF r] show ?thesis using Cons by (simp add: adv_step)
  qed
qed

lemma m_adv:
  "m U fl items bef rest st g = Some (bef', rest', g') \<Longrightarrow> adv bef rest bef' rest'"
proof (induction U fl items bef rest st g arbitrary: bef' rest' g' rule: m.induct)
  case (1 U fl bef rest st g)
  then show ?case by (simp add: adv_refl)
next
  case (2 U fl c "is" bef rest st g)
  show ?case
  proof (cases rest)
    case Nil
    with "2.prems" show ?thesis by simp
  next
    case (Cons x xs)
    with "2.prems" have c: "cls_match U fl c x" and r: "m U fl is (x # bef) xs st g = Some (bef', rest', g')"
      by (simp_all split: if_splits)
    from "2.IH" [OF Cons c r] show ?thesis using Cons by (simp add: adv_step)
  qed
next
  case (3 U fl c "is" bef rest st g)
  show ?case
  proof (cases rest)
    case Nil
    with "3.prems" have "m U fl is bef rest st g = Some (bef', rest', g')" by simp
    from "3.IH"(1) [OF Nil this] show ?thesis .
  next
    case (Cons x xs)
    show ?thesis
    proof (cases "cls_match U fl c x")
      case False
      with "3.prems" Cons have "m U fl is bef rest st g = Some (bef', rest', g')" by simp
      from "3.IH"(4) [OF Cons False this] show ?thesis .
    next
      case True
      show ?thesis
      proof (cases "m U fl (Star c # is) (x # bef) xs st g")
        case None
        with "3.prems" Cons True have "m U fl is bef rest st g = Some (bef', rest', g')" by simp
        from "3.IH"(3) [OF Cons True None this] show ?thesis .
      next
        case (Some r)
        with "3.prems" Cons True have "m U fl (Star c # is) (x # bef) xs st g = Some (bef', rest', g')" by simp
        from "3.IH"(2) [OF Cons True this] show ?thesis using Cons by (simp add: adv_step)
      qed
    qed
  qed
next
  case (4 U fl c "is" bef rest st g)
  show ?case
  proof (cases rest)
    case Nil
    with "4.prems" show ?thesis by simp
  next
    case (Cons x xs)
    with "4.prems" have c: "cls_match U fl c x" and r: "m U fl (Star c # is) (x # bef) xs st g = Some (bef', rest', g')"
      by (simp_all split: if_splits)
    from "4.IH" [OF Cons c r] show ?thesis using Cons by (simp add: adv_step)
  qed
next
  case (5 U fl c "is" bef rest st g)
  show ?case
  proof (cases rest)
    case Nil
    with "5.prems" have "m U fl is bef rest st g = Some (bef', rest', g')" by simp
    from "5.IH"(1) [OF Nil this] show ?thesis .
  next
    case (Cons x xs)
    show ?thesis
    proof (cases "cls_match U fl c x")
      case False
      with "5.prems" Cons have "m U fl is bef rest st g = Some (bef', rest', g')" by simp
      from "5.IH"(4) [OF Cons False this] show ?thesis .
    next
      case True
      show ?thesis
      proof (cases "m U fl is (x # bef) xs st g")
        case None
        with "5.prems" Cons True have "m U fl is bef rest st g = Some (bef', rest', g')" by simp
        from "5.IH"(3) [OF Cons True None this] show ?thesis .
      next
        case (Some r)
        with "5.prems" Cons True have "m U fl is (x # bef) xs st g = Some (bef', rest', g')" by simp
        from "5.IH"(2) [OF Cons True this] show ?thesis using Cons by (simp add: adv_step)
      qed
    qed
  qed
next
  case (6 U fl c "is" bef rest st g)
  show ?case
  proof (cases "m U fl is bef rest st g")
    case (Some r)
    with "6.prems" have "m U fl is bef rest st g = Some (bef', rest', g')" by simp
    from "6.IH"(1) [OF this] show ?thesis .
  next
    case None
    show ?thesis
    proof (cases rest)
      case Nil
      with "6.prems" None show ?thesis by simp
    next
      case (Cons x xs)
      with "6.prems" None have c: "cls_match U fl c x"
        and r: "m U fl (Lazy c # is) (x # bef) xs st g = Some (bef', rest', g')"
        by (simp_all split: if_splits)
      from "6.IH"(2) [OF None Cons c r] show ?thesis using Cons by (simp add: adv_step)
    qed
  qed
next
  case (7 U fl "is" bef rest st g)
  then show ?case by (simp split: if_splits)
next
  case (8 U fl "is" bef rest st g)
  then show ?case by (simp split: if_splits)
next
  case (9 U fl "is" bef rest st g)
  then show ?case by (simp split: if_splits)
next
  case (10 U fl n "is" bef rest st g)
  from "10.prems" have "m U fl is bef rest (st(n := length bef)) g = Some (bef', rest', g')"
    by (simp only: m.simps)
  from "10.IH" [OF this] show ?case .
next
  case (11 U fl n "is" bef rest st g)
  from "11.prems"
  have "m U fl is bef rest st (g(n := Some (rev (take (length bef - st n) bef)))) = Some (bef', rest', g')"
    by (simp only: m.simps)
  from "11.IH" [OF this] show ?case .
next
  case (12 U fl "is" bef rest st g)
  then show ?case by simp
next
  case (13 U fl a as "is" bef rest st g)
  show ?case
  proof (cases "m_seq U fl a bef rest")
    case None
    with "13.prems" have "m U fl (Alt as # is) bef rest st g = Some (bef', rest', g')" by simp
    from "13.IH"(1) [OF None this] show ?thesis .
  next
    case (Some p)
    obtain b1 r1 where p: "p = (b1, r1)" by (cases p)
    have a1: "adv bef rest b1 r1" using m_seq_adv Some p by simp
    show ?thesis
    proof (cases "m U fl is b1 r1 st g")
      case None
      with "13.prems" Some p have "m U fl (Alt as # is) bef rest st g = Some (bef', rest', g')" by simp
      from "13.IH"(3) [OF Some p [symmetric] None this] show ?thesis .
    next
      case (Some r)
      with "13.prems" \<open>m_seq U fl a bef rest = Some p\<close> p
      have "m U fl is b1 r1 st g = Some (bef', rest', g')" by simp
      from "13.IH"(2) [OF \<open>m_seq U fl a bef rest = Some p\<close> p [symmetric] this] a1
      show ?thesis by (rule adv_trans [rotated])
    qed
  qed
qed

subsection \<open>Substitution\<close>

lemma adv_length: "adv bef rest bef' rest' \<Longrightarrow> length rest' \<le> length rest"
  by (auto simp: adv_def)

lemma adv_set: "adv bef rest bef' rest' \<Longrightarrow> set rest' \<subseteq> set rest"
  by (auto simp: adv_def)

lemma sub_None:
  "m U fl re bef rest (\<lambda>n. 0) no_groups = None \<Longrightarrow>
   re_sub_from U fl re repl None bef rest =
     (case rest of [] \<Rightarrow> [] | x # xs \<Rightarrow> x # re_sub_from U fl re repl None (x # bef) xs)"
  by (subst re_sub_from.simps) simp

lemma sub_Some:
  "m U fl re bef rest (\<lambda>n. 0) no_groups = Some (bef', rest', g) \<Longrightarrow> length rest' < length rest \<Longrightarrow>
   re_sub_from U fl re repl None bef rest =
     repl (g(0 := Some (take (length rest - length rest') rest)))
       @ re_sub_from U fl re repl None bef' rest'"
  by (subst re_sub_from.simps) simp

lemma m_star_total: "m U fl [Star c] bef rest st g \<noteq> None"
  by (induction rest arbitrary: bef) (auto split: option.splits)

lemma slug_cls: "cls_match U no_flags (NotIn [W, Lit 45]) x = (\<not> slug_char U x)"
  by (simp add: slug_char_def no_flags_def)

lemma slug_m_None: "(m U no_flags slug_re bef (x # xs) st g = None) = slug_char U x"
  using m_star_total [of U no_flags "NotIn [W, Lit 45]" "x # bef" xs st g]
  by (simp add: slug_re_def slug_cls del: cls_match.simps)

lemma slug_m_progress:
  assumes "m U no_flags slug_re bef rest st g = Some (bef', rest', g')"
  shows "length rest' < length rest"
proof (cases rest)
  case Nil
  with assms show ?thesis by (simp add: slug_re_def)
next
  case (Cons x xs)
  with assms have "m U no_flags [Star (NotIn [W, Lit 45])] (x # bef) xs st g = Some (bef', rest', g')"
    by (simp add: slug_re_def split: if_splits del: cls_match.simps)
  from adv_length [OF m_adv [OF this]] Cons show ?thesis by simp
qed

lemma slug_sub_set:
  "set (re_sub_from U no_flags slug_re (\<lambda>g. [45]) None bef rest) \<subseteq> insert 45 (set rest)"
proof (induction "length rest" arbitrary: bef rest rule: less_induct)
  case less
  show ?case
  proof (cases "m U no_flags slug_re bef rest (\<lambda>n. 0) no_groups")
    case None
    show ?thesis
    proof (cases rest)
      case Nil
      with sub_None [OF None] show ?thesis by simp
    next
      case (Cons x xs)
      have "set (re_sub_from U no_flags slug_re (\<lambda>g. [45]) None (x # bef) xs) \<subseteq> insert 45 (set xs)"
        using less [of xs "x # bef"] Cons by simp
      with sub_None [OF None, of "\<lambda>g. [45]"] Cons show ?thesis by auto
    qed
  next
    case (Some r)
    obtain b' r' g' where r: "r = (b', r', g')" by (cases r)
    have lt: "length r' < length rest" using slug_m_progress Some r by simp
    have sb: "set r' \<subseteq> set rest" using adv_set [OF m_adv] Some r by simp
    have "set (re_sub_from U no_flags slug_re (\<lambda>g. [45]) None b' r') \<subseteq> insert 45 (set r')"
      using less [OF lt] .
    with sub_Some [of U no_flags slug_re bef rest b' r' g' "\<lambda>g. [45]"] Some r lt sb
    show ?thesis by auto
  qed
qed

lemma slug_sub_chars:
  "list_all (slug_char U) (re_sub_from U no_flags slug_re (\<lambda>g. [45]) None bef rest)"
proof (induction "length rest" arbitrary: bef rest rule: less_induct)
  case less
  show ?case
  proof (cases "m U no_flags slug_re bef rest (\<lambda>n. 0) no_groups")
    case None
    show ?thesis
    proof (cases rest)
      case Nil
      with sub_None [OF None] show ?thesis by simp
    next
      case (Cons x xs)
      have "list_all (slug_char U) (re_sub_from U no_flags slug_re (\<lambda>g. [45]) None (x # bef) xs)"
        using less [of xs "x # bef"] Cons by simp
      moreover have "slug_char U x" using None Cons slug_m_None by simp
      ultimately show ?thesis using sub_None [OF None, of "\<lambda>g. [45]"] Cons by simp
    qed
  next
    case (Some r)
    obtain b' r' g' where r: "r = (b', r', g')" by (cases r)
    have lt: "length r' < length rest" using slug_m_progress Some r by simp
    have "list_all (slug_char U) (re_sub_from U no_flags slug_re (\<lambda>g. [45]) None b' r')"
      using less [OF lt] .
    with sub_Some [of U no_flags slug_re bef rest b' r' g' "\<lambda>g. [45]"] Some r lt
    show ?thesis by (simp add: slug_char_def)
  qed
qed

lemma slug_sub_fixed:
  "list_all (slug_char U) rest \<Longrightarrow> re_sub_from U no_flags slug_re repl None bef rest = rest"
proof (induction rest arbitrary: bef)
  case Nil
  have "m U no_flags slug_re bef [] (\<lambda>n. 0) no_groups = None" by (simp add: slug_re_def)
  from sub_None [OF this] show ?case by simp
next
  case (Cons x xs)
  then have "m U no_flags slug_re bef (x # xs) (\<lambda>n. 0) no_groups = None"
    by (simp add: slug_m_None)
  from sub_None [OF this] Cons show ?case by simp
qed

subsection \<open>Stripping\<close>

lemma last_dropWhile: "dropWhile P xs \<noteq> [] \<Longrightarrow> last (dropWhile P xs) = last xs"
  by (induction xs) (auto split: if_splits)

lemma set_dropWhile_sub: "set (dropWhile P xs) \<subseteq> set xs"
  by (auto dest: set_dropWhileD)

lemma strip_chars_set: "set (strip_chars P s) \<subseteq> set s"
proof -
  have "set (dropWhile P (rev (dropWhile P s))) \<subseteq> set (rev (dropWhile P s))"
    by (rule set_dropWhile_sub)
  also have "\<dots> \<subseteq> set s" using set_dropWhile_sub [of P s] by (simp only: set_rev)
  finally show ?thesis by (simp only: strip_chars_def set_rev)
qed

lemma strip_chars_ends:
  assumes "strip_chars P s \<noteq> []"
  shows "\<not> P (hd (strip_chars P s)) \<and> \<not> P (last (strip_chars P s))"
proof -
  let ?t = "dropWhile P s"
  let ?l = "dropWhile P (rev ?t)"
  from assms have l: "?l \<noteq> []" by (simp add: strip_chars_def)
  then have t: "?t \<noteq> []" by (metis dropWhile.simps(1) rev.simps(1))
  have "hd (strip_chars P s) = last ?l" using l by (simp add: strip_chars_def hd_rev)
  also have "\<dots> = last (rev ?t)" using l by (rule last_dropWhile)
  also have "\<dots> = hd ?t" using t by (simp add: last_rev)
  finally have h: "hd (strip_chars P s) = hd ?t" .
  have "\<not> P (hd ?t)" using t by (rule hd_dropWhile)
  moreover have "last (strip_chars P s) = hd ?l" using l by (simp add: strip_chars_def last_rev)
  moreover have "\<not> P (hd ?l)" using l by (rule hd_dropWhile)
  ultimately show ?thesis using h by simp
qed

lemma strip_chars_id:
  assumes "s \<noteq> []" "\<not> P (hd s)" "\<not> P (last s)"
  shows "strip_chars P s = s"
proof -
  from assms have a: "dropWhile P s = s" by (cases s) auto
  from assms have "rev s \<noteq> []" "\<not> P (hd (rev s))" by (simp_all add: hd_rev)
  then have "dropWhile P (rev s) = rev s" by (cases "rev s") auto
  with a show ?thesis by (simp add: strip_chars_def)
qed

subsection \<open>slugify\<close>

lemma ascii_lower_fix: "c < 128 \<Longrightarrow> slug_char U c \<Longrightarrow> slug_fix U (ascii_lower c)"
  by (auto simp: slug_fix_def slug_char_def is_word_def ascii_lower_def)

lemma ascii_lower_45: "(ascii_lower c = 45) = (c = 45)"
  by (auto simp: ascii_lower_def)

lemma slugify_fixed:
  assumes ne: "s \<noteq> []" and all: "list_all (slug_fix U) s" and h: "hd s \<noteq> 45" and l: "last s \<noteq> 45"
  shows "slugify U s = s"
proof -
  from all have "list_all (slug_char U) s" by (simp add: slug_fix_def list_all_iff)
  then have 1: "re_sub U no_flags slug_re (\<lambda>g. ustr ''-'') None s = s"
    by (simp add: re_sub_def slug_sub_fixed)
  have 2: "str_strip_set (ustr ''-'') s = s"
    using ne h l by (simp add: str_strip_set_def ustr_def strip_chars_id)
  from all have a: "list_all (\<lambda>c. c < 128) s" by (simp add: slug_fix_def list_all_iff)
  from all have "map ascii_lower s = s"
    by (intro map_idI) (auto simp: slug_fix_def list_all_iff ascii_lower_def)
  with a have 3: "str_lower U s = s" by (simp add: str_lower_def)
  from 1 2 3 ne show ?thesis by (simp add: slugify_def)
qed

lemma slugify_post: "slugify U (ustr ''post'') = ustr ''post''"
  by code_simp

subsection \<open>Greedy quantifiers\<close>

lemma m_star_max:
  assumes "list_all (cls_match U fl c) ws"
    and "rest = [] \<or> \<not> cls_match U fl c (hd rest)"
    and "m U fl is (rev ws @ bef) rest st g = Some r"
  shows "m U fl (Star c # is) bef (ws @ rest) st g = Some r"
  using assms
proof (induction ws arbitrary: bef)
  case Nil
  then show ?case by (cases rest) auto
next
  case (Cons w ws)
  from Cons.prems have "m U fl (Star c # is) (w # bef) (ws @ rest) st g = Some r"
    by (intro Cons.IH) simp_all
  with Cons.prems(1) show ?case by simp
qed

lemma m_plus_max:
  assumes "list_all (cls_match U fl c) ws" and "ws \<noteq> []"
    and "rest = [] \<or> \<not> cls_match U fl c (hd rest)"
    and "m U fl is (rev ws @ bef) rest st g = Some r"
  shows "m U fl (Plus c # is) bef (ws @ rest) st g = Some r"
proof -
  from assms(2) obtain w ws' where ws: "ws = w # ws'" by (cases ws) auto
  with assms have "m U fl (Star c # is) (w # bef) (ws' @ rest) st g = Some r"
    by (intro m_star_max) simp_all
  with assms(1) ws show ?thesis by simp
qed

lemma sub_bol_id:
  "bef \<noteq> [] \<Longrightarrow> hd bef \<noteq> 10 \<Longrightarrow> 10 \<notin> set rest \<Longrightarrow>
   re_sub_from U fl (Bol # is) repl None bef rest = rest"
proof (induction rest arbitrary: bef)
  case Nil
  then have "m U fl (Bol # is) bef [] (\<lambda>n. 0) no_groups = None"
    by (cases bef) (simp_all add: at_bol_def)
  from sub_None [OF this] show ?case by simp
next
  case (Cons x xs)
  then have "m U fl (Bol # is) bef (x # xs) (\<lambda>n. 0) no_groups = None"
    by (cases bef) (simp_all add: at_bol_def)
  from sub_None [OF this] Cons show ?case by simp
qed

lemma sub_first_fail:
  assumes "m U fl (Bol # is) [] (x # xs) (\<lambda>n. 0) no_groups = None" and "x \<noteq> 10" and "10 \<notin> set xs"
  shows "re_sub_from U fl (Bol # is) repl None [] (x # xs) = x # xs"
  using sub_None [OF assms(1)] sub_bol_id [of "[x]" xs U fl "is" repl] assms by simp

subsection \<open>The heading patterns\<close>

lemma heading_re_alt: "heading_re n = Bol # hashes n @ Star (Is S) # line_tail"
  by (simp add: heading_re_def hashes_def line_tail_def)


lemma m_hashes:
  "m U re_M (hashes n @ is) bef (replicate n 35 @ rest) st g
     = m U re_M is (replicate n 35 @ bef) rest st g"
proof (induction n arbitrary: bef)
  case 0
  then show ?case by (simp add: hashes_def)
next
  case (Suc n)
  have "m U re_M (hashes (Suc n) @ is) bef (replicate (Suc n) 35 @ rest) st g
          = m U re_M (hashes n @ is) (35 # bef) (replicate n 35 @ rest) st g"
    by (simp add: hashes_def re_M_def)
  also have "\<dots> = m U re_M is (replicate n 35 @ 35 # bef) rest st g" by (rule Suc)
  finally show ?case by (simp add: replicate_app_Cons_same)
qed

lemma m_hashes_fail:
  "k < n \<Longrightarrow> rest = [] \<or> hd rest \<noteq> 35 \<Longrightarrow>
   m U re_M (hashes n @ is) bef (replicate k 35 @ rest) st g = None"
proof (induction k arbitrary: bef n)
  case 0
  then obtain n' where "n = Suc n'" by (cases n) auto
  with 0 show ?case by (cases rest) (auto simp: hashes_def re_M_def)
next
  case (Suc k)
  then obtain n' where n: "n = Suc n'" and "k < n'" by (cases n) auto
  with Suc have "m U re_M (hashes n' @ is) (35 # bef) (replicate k 35 @ rest) st g = None"
    by (intro Suc.IH) simp_all
  with n show ?case by (simp add: hashes_def re_M_def)
qed

lemma m_line_tail:
  assumes "t \<noteq> []" and "10 \<notin> set t"
  shows "m U re_M line_tail bef t st g = Some (rev t @ bef, [], g(1 := Some t))"
proof -
  have a: "list_all (cls_match U re_M (Is Dot)) t"
    using assms(2) by (induction t) (auto simp: re_M_def)
  let ?st = "st(1 := length bef)"
  have "m U re_M [Close 1, Eol] (rev t @ bef) [] ?st g = Some (rev t @ bef, [], g(1 := Some t))"
    by (simp add: at_eol_def)
  with a assms(1) have "m U re_M (Plus (Is Dot) # [Close 1, Eol]) bef (t @ []) ?st g
                          = Some (rev t @ bef, [], g(1 := Some t))"
    by (intro m_plus_max) simp_all
  then show ?thesis by (simp add: line_tail_def)
qed

lemma m_heading_line:
  assumes "list_all (is_space U) ws" and "t \<noteq> []" and "\<not> is_space U (hd t)" and "10 \<notin> set t"
  shows "m U re_M (heading_re n) [] (replicate n 35 @ ws @ t) st g
           = Some (rev t @ rev ws @ replicate n 35, [], g(1 := Some t))"
proof -
  have "m U re_M (Star (Is S) # line_tail) (replicate n 35) (ws @ t) st g
          = Some (rev t @ rev ws @ replicate n 35, [], g(1 := Some t))"
  proof (rule m_star_max)
    show "list_all (cls_match U re_M (Is S)) ws" using assms(1) by (simp add: list_all_iff)
    show "t = [] \<or> \<not> cls_match U re_M (Is S) (hd t)" using assms(3) by simp
    show "m U re_M line_tail (rev ws @ replicate n 35) t st g
            = Some (rev t @ rev ws @ replicate n 35, [], g(1 := Some t))"
      using assms(2,4) by (rule m_line_tail)
  qed
  then show ?thesis
    using m_hashes [of U n "Star (Is S) # line_tail" "[]" "ws @ t" st g]
    by (simp add: heading_re_alt at_bol_def)
qed


lemma sub_heading_match:
  assumes "list_all (is_space U) ws" and "t \<noteq> []" and "\<not> is_space U (hd t)" and "10 \<notin> set t"
  shows "re_sub U re_M (heading_re n) (repl_heading tag) None (replicate n 35 @ ws @ t)
           = ustr ''<'' @ ustr tag @ ustr ''>'' @ t @ ustr ''</'' @ ustr tag @ ustr ''>''"
proof -
  let ?b = "rev t @ rev ws @ replicate n 35"
  have mm: "m U re_M (heading_re n) [] (replicate n 35 @ ws @ t) (\<lambda>n. 0) no_groups
              = Some (?b, [], no_groups(1 := Some t))"
    using assms by (rule m_heading_line)
  have "last t \<noteq> 10" using assms(2,4) last_in_set by metis
  then have "hd ?b \<noteq> 10" using assms(2) by (simp add: hd_append hd_rev)
  moreover have "?b \<noteq> []" using assms(2) by simp
  ultimately have "at_bol re_M ?b = False" by (cases ?b) (auto simp: at_bol_def)
  then have "m U re_M (heading_re n) ?b [] (\<lambda>n. 0) no_groups = None"
    by (simp add: heading_re_alt)
  from sub_None [OF this] have e: "re_sub_from U re_M (heading_re n) (repl_heading tag) None ?b [] = []"
    by simp
  have "length ([]::nat list) < length (replicate n 35 @ ws @ t)" using assms(2) by simp
  from sub_Some [OF mm this, of "repl_heading tag"] e show ?thesis
    by (simp add: re_sub_def repl_heading_def grp_def)
qed

lemma sub_heading_skip:
  assumes "n < k" and "r = [] \<or> hd r \<noteq> 35" and "replicate n 35 @ r \<noteq> []"
    and "10 \<notin> set r"
  shows "re_sub U re_M (heading_re k) repl None (replicate n 35 @ r) = replicate n 35 @ r"
proof -
  from assms(3) obtain x xs where s: "replicate n 35 @ r = x # xs" by (cases "replicate n 35 @ r") auto
  have "m U re_M (hashes k @ Star (Is S) # line_tail) [] (replicate n 35 @ r) (\<lambda>n. 0) no_groups = None"
    using assms(1,2) by (rule m_hashes_fail)
  then have f: "m U re_M (Bol # hashes k @ Star (Is S) # line_tail) [] (x # xs) (\<lambda>n. 0) no_groups = None"
    using s by (simp add: at_bol_def)
  have "10 \<notin> set (replicate n 35 @ r)" using assms(4) by auto
  with s have "x \<noteq> 10" "10 \<notin> set xs" by auto
  from sub_first_fail [OF f this] s show ?thesis by (simp add: re_sub_def heading_re_alt)
qed

lemma sub_heading_skip0:
  assumes "r \<noteq> []" and "hd r \<noteq> 35" and "10 \<notin> set r" and "0 < k"
  shows "re_sub U re_M (heading_re k) repl None r = r"
  using sub_heading_skip [of 0 k r U repl] assms by simp

lemma space_35: "\<not> is_space U 35"
  by (simp add: is_space_def)

lemma heading_step_line:
  assumes ws: "list_all (is_space U) ws" "10 \<notin> set ws"
    and t: "t \<noteq> []" "\<not> is_space U (hd t)" "hd t \<noteq> 35" "10 \<notin> set t"
    and n: "0 < n"
  shows "heading_step U (replicate n 35 @ ws @ t) =
           (if n = 1 then ustr ''<h2>'' @ t @ ustr ''</h2>''
            else if n = 2 then ustr ''<h3>'' @ t @ ustr ''</h3>''
            else if n = 3 then ustr ''<h4>'' @ t @ ustr ''</h4>''
            else ustr ''<h4>'' @ replicate (n - 3) 35 @ ws @ t @ ustr ''</h4>'')"
proof -
  have h: "ws @ t = [] \<or> hd (ws @ t) \<noteq> 35"
    using ws(1) t(1,3) space_35 [of U] by (cases ws) auto
  have nl: "10 \<notin> set (ws @ t)" using ws(2) t(4) by simp
  have ne: "replicate n 35 @ ws @ t \<noteq> []" using t(1) by simp
  consider "n = 1" | "n = 2" | "n = 3" | "3 < n" using n by linarith
  then show ?thesis
  proof cases
    case 1
    have a: "re_sub U re_M (heading_re 3) (repl_heading ''h4'') None (replicate n 35 @ ws @ t)
               = replicate n 35 @ ws @ t"
      using 1 h nl ne by (intro sub_heading_skip [where r = "ws @ t", simplified]) simp_all
    have b: "re_sub U re_M (heading_re 2) (repl_heading ''h3'') None (replicate n 35 @ ws @ t)
               = replicate n 35 @ ws @ t"
      using 1 h nl ne by (intro sub_heading_skip [where r = "ws @ t", simplified]) simp_all
    have c: "re_sub U re_M (heading_re 1) (repl_heading ''h2'') None (replicate 1 35 @ ws @ t)
               = ustr ''<'' @ ustr ''h2'' @ ustr ''>'' @ t @ ustr ''</'' @ ustr ''h2'' @ ustr ''>''"
      using ws(1) t(1,2,4) by (rule sub_heading_match)
    from a b c 1 show ?thesis by (simp add: heading_step_def ustr_def)
  next
    case 2
    have a: "re_sub U re_M (heading_re 3) (repl_heading ''h4'') None (replicate n 35 @ ws @ t)
               = replicate n 35 @ ws @ t"
      using 2 h nl ne by (intro sub_heading_skip [where r = "ws @ t", simplified]) simp_all
    have b: "re_sub U re_M (heading_re 2) (repl_heading ''h3'') None (replicate 2 35 @ ws @ t)
               = ustr ''<'' @ ustr ''h3'' @ ustr ''>'' @ t @ ustr ''</'' @ ustr ''h3'' @ ustr ''>''"
      using ws(1) t(1,2,4) by (rule sub_heading_match)
    have c: "re_sub U re_M (heading_re 1) (repl_heading ''h2'') None
               (ustr ''<'' @ ustr ''h3'' @ ustr ''>'' @ t @ ustr ''</'' @ ustr ''h3'' @ ustr ''>'')
             = ustr ''<'' @ ustr ''h3'' @ ustr ''>'' @ t @ ustr ''</'' @ ustr ''h3'' @ ustr ''>''"
      using t(4) by (intro sub_heading_skip0) (simp_all add: ustr_def)
    from a b c 2 show ?thesis by (simp add: heading_step_def ustr_def)
  next
    case 3
    have a: "re_sub U re_M (heading_re 3) (repl_heading ''h4'') None (replicate 3 35 @ ws @ t)
               = ustr ''<'' @ ustr ''h4'' @ ustr ''>'' @ t @ ustr ''</'' @ ustr ''h4'' @ ustr ''>''"
      using ws(1) t(1,2,4) by (rule sub_heading_match)
    have b: "re_sub U re_M (heading_re 2) (repl_heading ''h3'') None
               (ustr ''<'' @ ustr ''h4'' @ ustr ''>'' @ t @ ustr ''</'' @ ustr ''h4'' @ ustr ''>'')
             = ustr ''<'' @ ustr ''h4'' @ ustr ''>'' @ t @ ustr ''</'' @ ustr ''h4'' @ ustr ''>''"
      using t(4) by (intro sub_heading_skip0) (simp_all add: ustr_def)
    have c: "re_sub U re_M (heading_re 1) (repl_heading ''h2'') None
               (ustr ''<'' @ ustr ''h4'' @ ustr ''>'' @ t @ ustr ''</'' @ ustr ''h4'' @ ustr ''>'')
             = ustr ''<'' @ ustr ''h4'' @ ustr ''>'' @ t @ ustr ''</'' @ ustr ''h4'' @ ustr ''>''"
      using t(4) by (intro sub_heading_skip0) (simp_all add: ustr_def)
    from a b c 3 show ?thesis by (simp add: heading_step_def ustr_def)
  next
    case 4
    let ?t = "replicate (n - 3) 35 @ ws @ t"
    have r: "replicate n 35 @ ws @ t = replicate 3 35 @ [] @ ?t"
      using 4 by (simp add: replicate_add [symmetric])
    have t': "?t \<noteq> []" "\<not> is_space U (hd ?t)" "10 \<notin> set ?t"
      using 4 ws(2) t(4) space_35 [of U] by (auto simp: hd_append)
    have a: "re_sub U re_M (heading_re 3) (repl_heading ''h4'') None (replicate 3 35 @ [] @ ?t)
               = ustr ''<'' @ ustr ''h4'' @ ustr ''>'' @ ?t @ ustr ''</'' @ ustr ''h4'' @ ustr ''>''"
      using t' by (intro sub_heading_match) simp_all
    have b: "re_sub U re_M (heading_re 2) (repl_heading ''h3'') None
               (ustr ''<'' @ ustr ''h4'' @ ustr ''>'' @ ?t @ ustr ''</'' @ ustr ''h4'' @ ustr ''>'')
             = ustr ''<'' @ ustr ''h4'' @ ustr ''>'' @ ?t @ ustr ''</'' @ ustr ''h4'' @ ustr ''>''"
      using t'(3) by (intro sub_heading_skip0) (simp_all add: ustr_def)
    have c: "re_sub U re_M (heading_re 1) (repl_heading ''h2'') None
               (ustr ''<'' @ ustr ''h4'' @ ustr ''>'' @ ?t @ ustr ''</'' @ ustr ''h4'' @ ustr ''>'')
             = ustr ''<'' @ ustr ''h4'' @ ustr ''>'' @ ?t @ ustr ''</'' @ ustr ''h4'' @ ustr ''>''"
      using t'(3) by (intro sub_heading_skip0) (simp_all add: ustr_def)
    from a b c 4 show ?thesis unfolding r [symmetric] heading_step_def by (simp add: ustr_def)
  qed
qed

subsection \<open>The title patterns\<close>





declare lines_of.simps(2) [simp del]








subsection \<open>Literal pieces, and texts where a pattern cannot match\<close>

lemma startswith_append [simp]: "startswith (p @ r) p"
  by (induction p) simp_all

lemma startswith_decomp: "startswith s p \<Longrightarrow> \<exists>r. s = p @ r"
proof (induction s p rule: startswith.induct)
  case (1 s)
  then show ?case by simp
next
  case (2 p ps)
  then show ?case by simp
next
  case (3 x xs p ps)
  then show ?case by auto
qed

lemma m_lit:
  "\<not> ignorecase fl \<Longrightarrow>
   m U fl (lit s @ is) bef (ustr s @ rest) st g = m U fl is (rev (ustr s) @ bef) rest st g"
  by (induction s arbitrary: bef) (simp_all add: lit_def ustr_def)

lemma m_lit_fail:
  "\<not> ignorecase fl \<Longrightarrow> \<not> startswith rest (ustr s) \<Longrightarrow> m U fl (lit s @ is) bef rest st g = None"
proof (induction s arbitrary: bef rest)
  case Nil
  then show ?case by (simp add: ustr_def)
next
  case (Cons c s)
  show ?case
  proof (cases rest)
    case Nil
    then show ?thesis by (simp add: lit_def)
  next
    case (Cons x xs)
    show ?thesis
    proof (cases "x = of_char c")
      case False
      with Cons Cons.prems(1) show ?thesis by (simp add: lit_def)
    next
      case True
      with Cons Cons.prems(2) have "\<not> startswith xs (ustr s)" by (simp add: ustr_def)
      with Cons.prems(1) have "m U fl (lit s @ is) (x # bef) xs st g = None" by (rule Cons.IH)
      with Cons True Cons.prems(1) show ?thesis by (simp add: lit_def)
    qed
  qed
qed

lemma str_replace_id: "old \<noteq> [] \<Longrightarrow> hd old \<notin> set s \<Longrightarrow> str_replace old new s = s"
proof (induction s)
  case Nil
  then show ?case by simp
next
  case (Cons x xs)
  from Cons.prems obtain o' os where old: "old = o' # os" by (cases old) auto
  with Cons.prems have "\<not> startswith (x # xs) old" by auto
  with Cons old show ?case by simp
qed

lemma normalize_id: "13 \<notin> set s \<Longrightarrow> normalize_newlines s = s"
  by (simp add: normalize_newlines_def str_replace_id)

lemma sub_all_None:
  assumes "\<And>b r. P r \<Longrightarrow> m U fl re b r (\<lambda>n. 0) no_groups = None"
    and "\<And>x xs. P (x # xs) \<Longrightarrow> P xs"
  shows "P rest \<Longrightarrow> re_sub_from U fl re repl None bef rest = rest"
proof (induction rest arbitrary: bef)
  case Nil
  from sub_None [OF assms(1) [OF Nil]] show ?case by simp
next
  case (Cons x xs)
  from assms(2) [OF Cons.prems] have "re_sub_from U fl re repl None (x # bef) xs = xs"
    by (rule Cons.IH)
  with sub_None [OF assms(1) [OF Cons.prems]] show ?case by simp
qed

lemma m_star_close_nl:
  "10 \<notin> set r \<Longrightarrow> m U re_DOTALL (Star c # Close n # One (Is (Lit 10)) # is) b r st g = None"
proof (induction r arbitrary: b)
  case Nil
  then show ?case by simp
next
  case (Cons x xs)
  then have "m U re_DOTALL (Star c # Close n # One (Is (Lit 10)) # is) (x # b) xs st g = None"
    by simp
  with Cons.prems show ?case by (simp add: re_DOTALL_def)
qed

lemma code_re_alt:
  "code_re = lit ''```'' @ Open 1 # Star (Is W) # Close 1 # One (Is (Lit 10)) # code_tail"
  by (simp add: code_re_def code_tail_def)

lemma code_m_None:
  assumes "10 \<notin> set r"
  shows "m U re_DOTALL code_re b r st g = None"
proof (cases "startswith r (ustr ''```'')")
  case False
  then show ?thesis unfolding code_re_alt by (intro m_lit_fail) (simp_all add: re_DOTALL_def)
next
  case True
  then obtain r' where r: "r = ustr ''```'' @ r'" using startswith_decomp by blast
  with assms have "10 \<notin> set r'" by simp
  then have "m U re_DOTALL (Star (Is W) # Close 1 # One (Is (Lit 10)) # code_tail)
               (rev (ustr ''```'') @ b) r' (st(1 := length (rev (ustr ''```'') @ b))) g = None"
    by (rule m_star_close_nl)
  then have "m U re_DOTALL (Open 1 # Star (Is W) # Close 1 # One (Is (Lit 10)) # code_tail)
               (rev (ustr ''```'') @ b) r' st g = None"
    by (simp only: m.simps(10))
  then show ?thesis unfolding code_re_alt r by (subst m_lit) (simp_all add: re_DOTALL_def)
qed

lemma code_step_id: "10 \<notin> set s \<Longrightarrow> code_step U s = s"
  unfolding code_step_def re_sub_def
  by (rule sub_all_None [where P = "\<lambda>r. 10 \<notin> set r"]) (simp_all add: code_m_None)

subsection \<open>A line with a hash mark, through all steps\<close>

lemma url_m_None:
  assumes "\<not> startswith r (ustr ''http'')"
  shows "m U no_flags url_re b r st g = None"
proof -
  have "m U no_flags (lit ''http'' @ [Opt (Is (Lit 115))] @ lit ''://''
          @ [Plus (NotIn [S, Lit 60]), Close 1]) b r (st(1 := length b)) g = None"
    using assms by (intro m_lit_fail) (simp_all add: no_flags_def)
  then show ?thesis by (simp only: url_re_def append.simps m.simps(10))
qed

lemma blank_m_None: "r = [] \<or> hd r \<noteq> 10 \<Longrightarrow> m U no_flags blank_re b r st g = None"
  by (cases r) (auto simp: blank_re_def no_flags_def)

lemma split_None:
  "m U fl re bef rest (\<lambda>n. 0) no_groups = None \<Longrightarrow>
   re_split_from U fl re bef rest cur =
     (case rest of [] \<Rightarrow> [rev cur] | x # xs \<Rightarrow> re_split_from U fl re (x # bef) xs (x # cur))"
  by (subst re_split_from.simps) simp

lemma split_hd: "\<exists>p ps. re_split_from U fl re bef rest cur = (rev cur @ p) # ps"
proof (induction rest arbitrary: bef cur)
  case Nil
  have "re_split_from U fl re bef [] cur = [rev cur]"
    by (subst re_split_from.simps) (simp split: option.splits)
  then show ?case by simp
next
  case (Cons x xs)
  from Cons [of "x # bef" "x # cur"] obtain p ps
    where e: "re_split_from U fl re (x # bef) xs (x # cur) = (rev cur @ x # p) # ps" by auto
  show ?case
  proof (cases "m U fl re bef (x # xs) (\<lambda>n. 0) no_groups")
    case None
    from split_None [OF None] e show ?thesis by simp
  next
    case (Some r)
    obtain b' r' g' where r: "r = (b', r', g')" by (cases r)
    show ?thesis
    proof (cases "length r' < length (x # xs)")
      case True
      with Some r have "re_split_from U fl re bef (x # xs) cur = rev cur # re_split_from U fl re b' r' []"
        by (subst re_split_from.simps) simp
      then show ?thesis by simp
    next
      case False
      with Some r have "re_split_from U fl re bef (x # xs) cur = re_split_from U fl re (x # bef) xs (x # cur)"
        by (subst re_split_from.simps) simp
      with e show ?thesis by simp
    qed
  qed
qed

lemma strip_keeps_prefix:
  assumes "\<not> P a" and "\<not> P b"
  shows "\<exists>q. strip_chars P (a # u @ b # v) = a # u @ b # q"
proof -
  have 1: "dropWhile P (a # u @ b # v) = a # u @ b # v" using assms(1) by simp
  have "rev (a # u @ b # v) = rev v @ b # rev u @ [a]" by simp
  moreover have "\<exists>w. dropWhile P (rev v @ b # rev u @ [a]) = w @ b # rev u @ [a]"
    using assms(2) by (cases "\<forall>x\<in>set (rev v). P x") (auto simp: dropWhile_append)
  ultimately obtain w where "dropWhile P (rev (a # u @ b # v)) = w @ b # rev u @ [a]" by auto
  with 1 have "strip_chars P (a # u @ b # v) = a # u @ b # rev w" by (simp add: strip_chars_def)
  then show ?thesis by blast
qed

lemma block_h2: "re_match U re_I block_re (60 # 104 # 50 # r)"
  by (simp add: re_match_def block_re_def re_I_def at_bol_def ci_eq_def ascii_lower_def is_digit_def)

lemma startswith_join: "startswith x p \<Longrightarrow> startswith (str_join sep (x # xs)) p"
proof -
  assume "startswith x p"
  then obtain r where "x = p @ r" using startswith_decomp by blast
  then show ?thesis by (cases xs) simp_all
qed

lemma compile_hash_line:
  assumes "X \<noteq> []" and "\<not> is_space U (hd X)" and "hd X \<noteq> 35" and "10 \<notin> set X" and "13 \<notin> set X"
  shows "startswith (compile_markdown U (35 # X)) (ustr ''<h2>'')"
proof -
  let ?H = "ustr ''<h2>'' @ X @ ustr ''</h2>''"
  have n: "normalize_newlines (35 # X) = 35 # X" using assms(5) by (simp add: normalize_id)
  have c: "code_step U (35 # X) = 35 # X" using assms(4) by (simp add: code_step_id)
  have "heading_step U (replicate 1 35 @ [] @ X) = ?H"
    using assms(1-4) heading_step_line [of U "[]" X 1] by simp
  then have h: "heading_step U (35 # X) = ?H" by simp
  obtain r where H: "?H = 60 # 104 # 50 # 62 # r" by (simp add: ustr_def)
  have u: "\<And>b z. m U no_flags url_re b (60 # z) (\<lambda>n. 0) no_groups = None"
    "\<And>b z. m U no_flags url_re b (104 # 50 # z) (\<lambda>n. 0) no_groups = None"
    "\<And>b z. m U no_flags url_re b (50 # z) (\<lambda>n. 0) no_groups = None"
    "\<And>b z. m U no_flags url_re b (62 # z) (\<lambda>n. 0) no_groups = None"
    by (rule url_m_None, simp add: ustr_def)+
  obtain A where A: "autolink_step U ?H = 60 # 104 # 50 # 62 # A"
    unfolding H autolink_step_def re_sub_def by (simp add: sub_None u)
  have v: "\<And>b z. m U no_flags blank_re b (60 # z) (\<lambda>n. 0) no_groups = None"
    "\<And>b z. m U no_flags blank_re b (104 # z) (\<lambda>n. 0) no_groups = None"
    "\<And>b z. m U no_flags blank_re b (50 # z) (\<lambda>n. 0) no_groups = None"
    "\<And>b z. m U no_flags blank_re b (62 # z) (\<lambda>n. 0) no_groups = None"
    by (rule blank_m_None, simp)+
  have "re_split U no_flags blank_re (60 # 104 # 50 # 62 # A)
          = re_split_from U no_flags blank_re [62, 50, 104, 60] A [62, 50, 104, 60]"
    unfolding re_split_def by (simp add: split_None v)
  with split_hd [of U no_flags blank_re "[62, 50, 104, 60]" A "[62, 50, 104, 60]"]
  obtain p ps where sp: "re_split U no_flags blank_re (60 # 104 # 50 # 62 # A) = (60 # 104 # 50 # 62 # p) # ps"
    by auto
  have "\<not> is_space U 60" "\<not> is_space U 62" by (simp_all add: is_space_def)
  from strip_keeps_prefix [OF this, of "[104, 50]" p]
  obtain q where q: "str_strip U (60 # 104 # 50 # 62 # p) = 60 # 104 # 50 # 62 # q"
    by (auto simp: str_strip_def)
  have "blocks U ((60 # 104 # 50 # 62 # p) # ps) = (60 # 104 # 50 # 62 # q) # blocks U ps"
    by (simp add: q block_h2 Let_def)
  with sp have "paragraph_step U (60 # 104 # 50 # 62 # A)
                  = str_join [10, 10] ((60 # 104 # 50 # 62 # q) # blocks U ps)"
    by (simp add: paragraph_step_def)
  moreover have "startswith (60 # 104 # 50 # 62 # q) (ustr ''<h2>'')" by (simp add: ustr_def)
  ultimately have "startswith (paragraph_step U (60 # 104 # 50 # 62 # A)) (ustr ''<h2>'')"
    by (simp only: startswith_join)
  with n c h A show ?thesis by (simp add: compile_markdown_def)
qed

lemma lines_of_single: "10 \<notin> set s \<Longrightarrow> lines_of s = [s]"
  by (induction s) (simp_all add: lines_of.simps(2))

subsection \<open>The lazy quantifier and the first occurrence of a literal\<close>

lemma m_lazy_min:
  assumes "list_all (cls_match U fl c) ws"
    and "\<And>i. i < length ws \<Longrightarrow> m U fl is (rev (take i ws) @ bef) (drop i ws @ rest) st g = None"
    and "m U fl is (rev ws @ bef) rest st g = Some r"
  shows "m U fl (Lazy c # is) bef (ws @ rest) st g = Some r"
  using assms
proof (induction ws arbitrary: bef)
  case Nil
  then show ?case by simp
next
  case (Cons w ws)
  have 0: "m U fl is bef ((w # ws) @ rest) st g = None" using Cons.prems(2) [of 0] by simp
  have "m U fl (Lazy c # is) (w # bef) (ws @ rest) st g = Some r"
  proof (rule Cons.IH)
    show "list_all (cls_match U fl c) ws" using Cons.prems(1) by simp
    show "m U fl is (rev ws @ w # bef) rest st g = Some r" using Cons.prems(3) by simp
    fix i assume "i < length ws"
    then show "m U fl is (rev (take i ws) @ w # bef) (drop i ws @ rest) st g = None"
      using Cons.prems(2) [of "Suc i"] by simp
  qed
  with 0 Cons.prems(1) show ?case by simp
qed

lemma startswith_drop_in: "startswith (drop i s) p \<Longrightarrow> str_in p s"
proof (induction s arbitrary: i)
  case Nil
  then show ?case by (cases p) simp_all
next
  case (Cons x xs)
  then show ?case by (cases i) auto
qed

lemma startswith_shorten:
  "startswith (t @ c # u) p \<Longrightarrow> c \<notin> set (tl p) \<Longrightarrow> t \<noteq> [] \<Longrightarrow> startswith t p"
proof (induction t arbitrary: p)
  case Nil
  then show ?case by simp
next
  case (Cons x t)
  show ?case
  proof (cases p)
    case Nil
    then show ?thesis by simp
  next
    case p: (Cons a p')
    show ?thesis
    proof (cases t)
      case Nil
      with Cons.prems p show ?thesis by (cases p') auto
    next
      case t: (Cons y t')
      from Cons.prems p have xa: "x = a" and s: "startswith (t @ c # u) p'" by simp_all
      from Cons.prems(2) p have "c \<notin> set (tl p')" by (cases p') auto
      with s t have "startswith t p'" by (intro Cons.IH) simp_all
      with xa p show ?thesis by simp
    qed
  qed
qed

lemma no_straddle:
  assumes "c \<notin> set cs" and "\<not> str_in (c # cs) s" and "i < length s"
  shows "\<not> startswith (drop i s @ c # cs @ r) (c # cs)"
proof
  assume a: "startswith (drop i s @ c # cs @ r) (c # cs)"
  from assms(3) have "drop i s \<noteq> []" by simp
  with a assms(1) have "startswith (drop i s) (c # cs)"
    by (intro startswith_shorten [of "drop i s" c "cs @ r"]) simp_all
  then have "str_in (c # cs) s" by (rule startswith_drop_in)
  with assms(2) show False by simp
qed

subsection \<open>The pattern of the code blocks\<close>

lemma m_close_nl_lit_fail:
  assumes "\<not> ignorecase fl" and "\<not> startswith r (10 # ustr s)"
  shows "m U fl (Close n # One (Is (Lit 10)) # lit s @ is) b r st g = None"
proof (cases r)
  case Nil
  then show ?thesis by simp
next
  case (Cons x xs)
  show ?thesis
  proof (cases "x = 10")
    case False
    with Cons assms(1) show ?thesis by simp
  next
    case True
    with Cons assms(2) have "\<not> startswith xs (ustr s)" by simp
    with assms(1) have "\<And>b g. m U fl (lit s @ is) b xs st g = None" by (intro m_lit_fail)
    with Cons True assms(1) show ?thesis by simp
  qed
qed

lemma dot_all: "list_all (cls_match U re_DOTALL (Is Dot)) ws"
  by (induction ws) (simp_all add: re_DOTALL_def)

lemma m_code_tail:
  assumes "\<not> str_in ([10] @ ustr ''```'') body"
  shows "m U re_DOTALL code_tail b (body @ [10] @ ustr ''```'' @ rest) st g
           = Some (rev (body @ [10] @ ustr ''```'') @ b, rest, g(2 := Some body))"
proof -
  let ?st = "st(2 := length b)"
  let ?is = "Close 2 # One (Is (Lit 10)) # lit ''```'' @ []"
  have nf: "\<not> ignorecase re_DOTALL" by (simp add: re_DOTALL_def)
  have 3: "ustr ''```'' = [96, 96, 96]" by (simp add: ustr_def)
  have "m U re_DOTALL (Lazy (Is Dot) # ?is) b (body @ [10] @ ustr ''```'' @ rest) ?st g
          = Some (rev (body @ [10] @ ustr ''```'') @ b, rest, g(2 := Some body))"
  proof (rule m_lazy_min)
    show "list_all (cls_match U re_DOTALL (Is Dot)) body" by (rule dot_all)
    show "m U re_DOTALL ?is (rev body @ b) ([10] @ ustr ''```'' @ rest) ?st g
            = Some (rev (body @ [10] @ ustr ''```'') @ b, rest, g(2 := Some body))"
      using m_lit [OF nf, of U "''```''" "[]" "10 # rev body @ b" rest ?st "g(2 := Some body)"]
      by (simp add: re_DOTALL_def)
    fix i assume "i < length body"
    with assms have "\<not> startswith (drop i body @ 10 # [96, 96, 96] @ rest) (10 # [96, 96, 96])"
      by (intro no_straddle) (simp_all add: 3)
    then have "\<not> startswith (drop i body @ [10] @ ustr ''```'' @ rest) (10 # ustr ''```'')"
      by (simp add: 3)
    with nf show "m U re_DOTALL ?is (rev (take i body) @ b) (drop i body @ [10] @ ustr ''```'' @ rest) ?st g = None"
      by (rule m_close_nl_lit_fail)
  qed
  then show ?thesis by (simp add: code_tail_def)
qed

lemma word_10: "\<not> is_word U 10"
  by (simp add: is_word_def)

lemma m_code_match:
  assumes "list_all (is_word U) lang" and "\<not> str_in ([10] @ ustr ''```'') body"
  shows "m U re_DOTALL code_re b (fence lang body @ rest) st g
           = Some (rev (fence lang body) @ b, rest, g(1 := Some lang, 2 := Some body))"
proof -
  let ?b = "rev (ustr ''```'') @ b"
  let ?st = "st(1 := length ?b)"
  let ?g = "g(1 := Some lang)"
  have nf: "\<not> ignorecase re_DOTALL" by (simp add: re_DOTALL_def)
  have t: "m U re_DOTALL code_tail (10 # rev lang @ ?b) (body @ [10] @ ustr ''```'' @ rest) ?st ?g
             = Some (rev (body @ [10] @ ustr ''```'') @ 10 # rev lang @ ?b, rest, ?g(2 := Some body))"
    using assms(2) by (rule m_code_tail)
  have "m U re_DOTALL (Star (Is W) # Close 1 # One (Is (Lit 10)) # code_tail) ?b
          (lang @ 10 # body @ [10] @ ustr ''```'' @ rest) ?st g
        = Some (rev (body @ [10] @ ustr ''```'') @ 10 # rev lang @ ?b, rest, ?g(2 := Some body))"
  proof (rule m_star_max)
    show "list_all (cls_match U re_DOTALL (Is W)) lang" using assms(1) by (simp add: list_all_iff)
    show "10 # body @ [10] @ ustr ''```'' @ rest = []
            \<or> \<not> cls_match U re_DOTALL (Is W) (hd (10 # body @ [10] @ ustr ''```'' @ rest))"
      by (simp add: word_10)
    show "m U re_DOTALL (Close 1 # One (Is (Lit 10)) # code_tail) (rev lang @ ?b)
            (10 # body @ [10] @ ustr ''```'' @ rest) ?st g
          = Some (rev (body @ [10] @ ustr ''```'') @ 10 # rev lang @ ?b, rest, ?g(2 := Some body))"
      using t by (simp add: re_DOTALL_def)
  qed
  then have "m U re_DOTALL (Open 1 # Star (Is W) # Close 1 # One (Is (Lit 10)) # code_tail) ?b
          (lang @ 10 # body @ [10] @ ustr ''```'' @ rest) st g
        = Some (rev (body @ [10] @ ustr ''```'') @ 10 # rev lang @ ?b, rest, ?g(2 := Some body))"
    by (simp only: m.simps(10))
  with m_lit [OF nf, of U "''```''" _ b "lang @ 10 # body @ [10] @ ustr ''```'' @ rest" st g]
  show ?thesis by (simp add: code_re_alt fence_def)
qed


lemma code_sub_skip:
  "96 \<notin> set pre \<Longrightarrow>
   re_sub_from U re_DOTALL code_re repl None bef (pre @ s)
     = pre @ re_sub_from U re_DOTALL code_re repl None (rev pre @ bef) s"
proof (induction pre arbitrary: bef)
  case Nil
  then show ?case by simp
next
  case (Cons x pre)
  then have "\<not> startswith ((x # pre) @ s) (ustr ''```'')" by (simp add: ustr_def)
  then have "m U re_DOTALL code_re bef ((x # pre) @ s) (\<lambda>n. 0) no_groups = None"
    unfolding code_re_alt by (intro m_lit_fail) (simp_all add: re_DOTALL_def)
  from sub_None [OF this] Cons show ?case by simp
qed

lemma code_sub_nil: "re_sub_from U re_DOTALL code_re repl None bef [] = []"
proof -
  have "m U re_DOTALL code_re bef [] (\<lambda>n. 0) no_groups = None"
    unfolding code_re_alt by (intro m_lit_fail) (simp_all add: re_DOTALL_def ustr_def)
  from sub_None [OF this] show ?thesis by simp
qed

lemma strip_words:
  assumes "list_all (\<lambda>c. is_word U c \<and> \<not> is_space U c) lang"
  shows "str_strip U lang = lang"
proof (cases lang)
  case Nil
  then show ?thesis by (simp add: str_strip_def strip_chars_def)
next
  case (Cons x xs)
  then have "lang \<noteq> []" by simp
  moreover from this assms have "\<not> is_space U (hd lang)" "\<not> is_space U (last lang)"
    by (auto simp: list_all_iff)
  ultimately show ?thesis unfolding str_strip_def by (rule strip_chars_id)
qed

lemma repl_code_container:
  assumes "list_all (\<lambda>c. is_word U c \<and> \<not> is_space U c) lang"
  shows "repl_code U (g(1 := Some lang, 2 := Some body, 0 := z)) = container lang body"
  using strip_words [OF assms] by (simp add: repl_code_def container_def grp_def Let_def)

lemma code_sub_fence:
  assumes "fence_ok U (pre, lang, body)"
  shows "re_sub_from U re_DOTALL code_re (repl_code U) None bef (pre @ fence lang body @ rest)
           = pre @ container lang body
               @ re_sub_from U re_DOTALL code_re (repl_code U) None
                   (rev (fence lang body) @ rev pre @ bef) rest"
proof -
  from assms have pre: "96 \<notin> set pre"
    and lang: "list_all (\<lambda>c. is_word U c \<and> \<not> is_space U c) lang"
    and body: "\<not> str_in ([10] @ ustr ''```'') body" by simp_all
  from lang have w: "list_all (is_word U) lang" by (simp add: list_all_iff)
  let ?b = "rev pre @ bef"
  have mm: "m U re_DOTALL code_re ?b (fence lang body @ rest) (\<lambda>n. 0) no_groups
              = Some (rev (fence lang body) @ ?b, rest, no_groups(1 := Some lang, 2 := Some body))"
    using w body by (rule m_code_match)
  have "length rest < length (fence lang body @ rest)" by (simp add: fence_def ustr_def)
  from sub_Some [OF mm this, of "repl_code U"]
  have "re_sub_from U re_DOTALL code_re (repl_code U) None ?b (fence lang body @ rest)
          = container lang body
              @ re_sub_from U re_DOTALL code_re (repl_code U) None (rev (fence lang body) @ ?b) rest"
    by (simp only: repl_code_container [OF lang])
  with code_sub_skip [OF pre, of U "repl_code U" bef "fence lang body @ rest"]
  show ?thesis by simp
qed

lemma code_sub_doc:
  "list_all (fence_ok U) fs \<Longrightarrow> 96 \<notin> set post \<Longrightarrow>
   re_sub_from U re_DOTALL code_re (repl_code U) None bef (doc_text fs post) = doc_html fs post"
proof (induction fs arbitrary: bef)
  case Nil
  with code_sub_skip [of post U "repl_code U" bef "[]"] show ?case by (simp add: code_sub_nil)
next
  case (Cons f fs)
  obtain pre lang body where f: "f = (pre, lang, body)" by (cases f)
  with Cons.prems have ok: "fence_ok U (pre, lang, body)" by simp
  from Cons.prems have "re_sub_from U re_DOTALL code_re (repl_code U) None
                          (rev (fence lang body) @ rev pre @ bef) (doc_text fs post) = doc_html fs post"
    by (intro Cons.IH) simp_all
  with code_sub_fence [OF ok, of bef "doc_text fs post"] f show ?case by simp
qed

lemma code_step_doc:
  "list_all (fence_ok U) fs \<Longrightarrow> 96 \<notin> set post \<Longrightarrow> code_step U (doc_text fs post) = doc_html fs post"
  by (simp add: code_step_def re_sub_def code_sub_doc)

lemma compile_python_example:
  "compile_markdown U (ustr ''```python'' @ [10] @ ustr ''print(1)'' @ [10] @ ustr ''```'')
     = ustr ''<pre><code class='' @ [39] @ ustr ''language-python'' @ [39]
         @ ustr ''>print(1)</code></pre>''"
  by code_simp

subsection \<open>A fenced block of one line, through all steps\<close>

lemma set_str_replace: "set (str_replace old new s) \<subseteq> set s \<union> set new"
proof (induction old new s rule: str_replace.induct)
  case (1 old new)
  then show ?case by auto
next
  case (2 old new x xs)
  show ?case
  proof (cases "old = []")
    case True
    with 2 show ?thesis by auto
  next
    case False
    show ?thesis
    proof (cases "startswith (x # xs) old")
      case True
      have "set (drop (length old) (x # xs)) \<subseteq> set (x # xs)" by (rule set_drop_subset)
      with 2(2) [OF False True] False True show ?thesis by auto
    next
      case st: False
      with 2(3) [OF False st] False show ?thesis by auto
    qed
  qed
qed

lemma set_html_escape: "set (html_escape s) \<subseteq> set s \<union> entity_chars"
proof -
  let ?s1 = "str_replace (ustr ''&'') (ustr ''&amp;'') s"
  let ?s2 = "str_replace (ustr ''<'') (ustr ''&lt;'') ?s1"
  let ?s3 = "str_replace (ustr ''>'') (ustr ''&gt;'') ?s2"
  let ?s4 = "str_replace (ustr [CHR 0x22]) (ustr ''&quot;'') ?s3"
  have 1: "set ?s1 \<subseteq> set s \<union> entity_chars"
    using set_str_replace [of "ustr ''&''" "ustr ''&amp;''" s] by (auto simp: entity_chars_def)
  have 2: "set ?s2 \<subseteq> set s \<union> entity_chars"
    using set_str_replace [of "ustr ''<''" "ustr ''&lt;''" ?s1] 1 by (auto simp: entity_chars_def)
  have 3: "set ?s3 \<subseteq> set s \<union> entity_chars"
    using set_str_replace [of "ustr ''>''" "ustr ''&gt;''" ?s2] 2 by (auto simp: entity_chars_def)
  have 4: "set ?s4 \<subseteq> set s \<union> entity_chars"
    using set_str_replace [of "ustr [CHR 0x22]" "ustr ''&quot;''" ?s3] 3 by (auto simp: entity_chars_def)
  show ?thesis
    unfolding html_escape_def
    using set_str_replace [of "ustr [CHR 0x27]" "ustr ''&#x27;''" ?s4] 4 by (auto simp: entity_chars_def)
qed

lemma entity_chars_10_58: "10 \<notin> entity_chars" "58 \<notin> entity_chars"
  by (simp_all add: entity_chars_def ustr_def)

lemma html_escape_free:
  "c \<notin> set s \<Longrightarrow> c \<notin> entity_chars \<Longrightarrow> c \<notin> set (html_escape s)"
  using set_html_escape [of s] by auto


lemma str_in_hd: "str_in (x # p) s \<Longrightarrow> x \<in> set s"
  by (induction s) auto

lemma heading_step_id:
  assumes "s \<noteq> []" and "hd s \<noteq> 35" and "10 \<notin> set s"
  shows "heading_step U s = s"
  using assms by (simp add: heading_step_def sub_heading_skip0)

lemma word_not_ctl: "is_word U c \<Longrightarrow> c \<noteq> 10 \<and> c \<noteq> 13 \<and> c \<noteq> 58 \<and> c \<noteq> 96"
  by (auto simp: is_word_def)

lemma container_free:
  assumes "c \<notin> set lang" and "c \<notin> set body" and "c \<notin> entity_chars"
    and "c \<notin> set (ustr ''<pre><code class='' @ [39] @ ustr ''language-'' @ [39] @ ustr ''></code></pre>'')"
  shows "c \<notin> set (container lang body)"
  using assms html_escape_free [of c lang] html_escape_free [of c body]
  by (auto simp: container_def ustr_def)

lemma container_shape:
  "\<exists>r. container lang body = 60 # 112 # 114 # 101 # r \<and> last (container lang body) = 62"
  by (simp add: container_def ustr_def)

lemma url_m_None_colon:
  assumes "58 \<notin> set r"
  shows "m U no_flags url_re b r st g = None"
proof (cases "startswith r (ustr ''http'')")
  case False
  then show ?thesis by (rule url_m_None)
next
  case True
  then obtain r' where r: "r = ustr ''http'' @ r'" using startswith_decomp by blast
  with assms have c: "58 \<notin> set r'" by simp
  have nf: "\<not> ignorecase no_flags" by (simp add: no_flags_def)
  let ?is = "lit ''://'' @ [Plus (NotIn [S, Lit 60]), Close 1]"
  have f: "\<And>b (z::nat list) st g. 58 \<notin> set z \<Longrightarrow> m U no_flags ?is b z st g = None"
  proof -
    fix b st g and z :: "nat list" assume "58 \<notin> set z"
    then have "\<not> startswith z (ustr ''://'')" by (cases z) (auto simp: ustr_def)
    with nf show "m U no_flags ?is b z st g = None" by (rule m_lit_fail)
  qed
  have "m U no_flags (Opt (Is (Lit 115)) # ?is) (rev (ustr ''http'') @ b) r' (st(1 := length b)) g = None"
  proof (cases r')
    case Nil
    then show ?thesis using f [of "[]"] by simp
  next
    case (Cons x xs)
    with c have "58 \<notin> set xs" by simp
    from f [OF this] f [OF c] Cons show ?thesis by simp
  qed
  then have "m U no_flags (lit ''http'' @ Opt (Is (Lit 115)) # ?is) b r (st(1 := length b)) g = None"
    unfolding r using m_lit [OF nf, of U "''http''" "Opt (Is (Lit 115)) # ?is" b r' "st(1 := length b)" g]
    by simp
  then show ?thesis by (simp only: url_re_def append.simps m.simps(10))
qed

lemma autolink_id: "58 \<notin> set s \<Longrightarrow> autolink_step U s = s"
  unfolding autolink_step_def re_sub_def
  by (rule sub_all_None [where P = "\<lambda>r. 58 \<notin> set r"]) (simp_all add: url_m_None_colon)

lemma split_from_id:
  "10 \<notin> set rest \<Longrightarrow> re_split_from U no_flags blank_re bef rest cur = [rev cur @ rest]"
proof (induction rest arbitrary: bef cur)
  case Nil
  have "m U no_flags blank_re bef [] (\<lambda>n. 0) no_groups = None" by (rule blank_m_None) simp
  from split_None [OF this] show ?case by simp
next
  case (Cons x xs)
  then have "m U no_flags blank_re bef (x # xs) (\<lambda>n. 0) no_groups = None"
    by (intro blank_m_None) simp
  from split_None [OF this] Cons show ?case by simp
qed

lemma block_pre: "re_match U re_I block_re (60 # 112 # 114 # 101 # r)"
  by (simp add: re_match_def block_re_def re_I_def at_bol_def ci_eq_def ascii_lower_def
        lits_def)

lemma paragraph_pre:
  assumes "s = 60 # 112 # 114 # 101 # r" and "last s = 62" and "10 \<notin> set s"
  shows "paragraph_step U s = s"
proof -
  have sp: "\<not> is_space U 60" "\<not> is_space U 62" by (simp_all add: is_space_def)
  from assms(1) have "s \<noteq> []" "hd s = 60" by simp_all
  with assms(2) sp have st: "str_strip U s = s" unfolding str_strip_def by (intro strip_chars_id) simp_all
  have "re_split U no_flags blank_re s = [s]"
    using assms(3) by (simp add: re_split_def split_from_id)
  moreover have "blocks U [s] = [s]"
    using st block_pre [of U r] assms(1) by (simp add: Let_def)
  ultimately show ?thesis by (simp add: paragraph_step_def)
qed

lemma fence_steps:
  assumes lang: "list_all (\<lambda>c. is_word U c \<and> \<not> is_space U c) lang"
    and c: "10 \<notin> set c" "13 \<notin> set c"
  shows "heading_step U (code_step U (normalize_newlines (fence lang c))) = container lang c"
    and "58 \<notin> set c \<Longrightarrow> compile_markdown U (fence lang c) = container lang c"
proof -
  from lang have l: "10 \<notin> set lang" "13 \<notin> set lang" "58 \<notin> set lang"
    using word_not_ctl [of U] by (auto simp: list_all_iff)
  have "13 \<notin> set (fence lang c)" using l c by (simp add: fence_def ustr_def)
  then have n: "normalize_newlines (fence lang c) = fence lang c" by (rule normalize_id)
  have "\<not> str_in ([10] @ ustr ''```'') c" using c(1) str_in_hd [of 10 "ustr ''```''" c] by auto
  with lang have "list_all (fence_ok U) [([], lang, c)]" by simp
  then have "code_step U (doc_text [([], lang, c)] []) = doc_html [([], lang, c)] []"
    by (rule code_step_doc) simp
  then have cs: "code_step U (fence lang c) = container lang c" by simp
  obtain r where sh: "container lang c = 60 # 112 # 114 # 101 # r" "last (container lang c) = 62"
    using container_shape by blast
  have nl: "10 \<notin> set (container lang c)"
    using l(1) c(1) by (intro container_free) (simp_all add: entity_chars_10_58 ustr_def)
  have "heading_step U (container lang c) = container lang c"
    using sh(1) nl by (intro heading_step_id) simp_all
  with n cs show h: "heading_step U (code_step U (normalize_newlines (fence lang c))) = container lang c"
    by simp
  assume "58 \<notin> set c"
  with l(3) have "58 \<notin> set (container lang c)"
    by (intro container_free) (simp_all add: entity_chars_10_58 ustr_def)
  then have "autolink_step U (container lang c) = container lang c" by (rule autolink_id)
  moreover have "paragraph_step U (container lang c) = container lang c"
    using sh nl by (rule paragraph_pre)
  ultimately show "compile_markdown U (fence lang c) = container lang c"
    using h by (simp add: compile_markdown_def)
qed

subsection \<open>Replacing every occurrence\<close>

lemma occ_append_ge: "occurrences p v \<le> occurrences p (u @ v)"
  by (induction u) simp_all

lemma occ_zero_id: "p \<noteq> [] \<Longrightarrow> occurrences p s = 0 \<Longrightarrow> str_replace p new s = s"
  by (induction s) (simp_all split: if_splits)

lemma startswith_self_append: "p \<noteq> [] \<Longrightarrow> \<exists>x xs. p @ r = x # xs \<and> startswith (x # xs) p"
proof -
  assume "p \<noteq> []"
  then obtain x xs where "p @ r = x # xs" by (cases p) auto
  moreover have "startswith (p @ r) p" by simp
  ultimately show ?thesis by metis
qed

lemma occ_ge: "p \<noteq> [] \<Longrightarrow> Suc (occurrences p r) \<le> occurrences p (a @ p @ r)"
proof (induction a)
  case Nil
  then obtain x xs where e: "p @ r = x # xs" "startswith (x # xs) p"
    using startswith_self_append by blast
  from Nil e(1) obtain p' where "xs = p' @ r" by (cases p) auto
  then have "occurrences p r \<le> occurrences p xs" by (simp add: occ_append_ge)
  with e show ?case by simp
next
  case (Cons x a)
  then show ?case by simp
qed

lemma replace_first:
  assumes "p \<noteq> []"
  shows "occurrences p (a @ p @ r) = Suc (occurrences p r) \<Longrightarrow>
         str_replace p new (a @ p @ r) = a @ new @ str_replace p new r"
proof (induction a)
  case Nil
  from assms obtain x xs where e: "p @ r = x # xs" "startswith (x # xs) p"
    using startswith_self_append by blast
  with assms have "str_replace p new (x # xs) = new @ str_replace p new (drop (length p) (x # xs))"
    by simp
  with e(1) [symmetric] show ?case by simp
next
  case (Cons x a)
  from occ_ge [OF assms, of r a] Cons.prems
  have n: "\<not> startswith (x # a @ p @ r) p" and o: "occurrences p (a @ p @ r) = Suc (occurrences p r)"
    by (simp_all split: if_splits)
  from Cons.IH [OF o] n assms show ?case by simp
qed

lemma occ_join_ge: "p \<noteq> [] \<Longrightarrow> length qs - 1 \<le> occurrences p (str_join p qs)"
proof (induction p qs rule: str_join.induct)
  case (1 sep)
  then show ?case by simp
next
  case (2 sep x)
  then show ?case by simp
next
  case (3 sep x y ys)
  from 3 have "length (y # ys) - 1 \<le> occurrences sep (str_join sep (y # ys))" by simp
  with occ_ge [OF 3(2), of "str_join sep (y # ys)" x] show ?case by simp
qed

lemma replace_join:
  "p \<noteq> [] \<Longrightarrow> ps \<noteq> [] \<Longrightarrow> occurrences p (str_join p ps) = length ps - 1 \<Longrightarrow>
   str_replace p new (str_join p ps) = str_join new ps"
proof (induction p ps rule: str_join.induct)
  case (1 sep)
  then show ?case by simp
next
  case (2 sep x)
  then show ?case by (simp add: occ_zero_id)
next
  case (3 sep x y ys)
  let ?J = "str_join sep (y # ys)"
  from 3(2) have sep: "sep \<noteq> []" .
  have a: "Suc (occurrences sep ?J) \<le> occurrences sep (x @ sep @ ?J)" using sep by (rule occ_ge)
  have b: "length (y # ys) - 1 \<le> occurrences sep ?J" using sep by (rule occ_join_ge)
  from 3(4) have c: "occurrences sep (x @ sep @ ?J) = Suc (length ys)" by simp
  from a b c have o: "occurrences sep ?J = length (y # ys) - 1"
    and f: "occurrences sep (x @ sep @ ?J) = Suc (occurrences sep ?J)" by simp_all
  from 3(1) [OF sep _ o] have "str_replace sep new ?J = str_join new (y # ys)" by simp
  with replace_first [OF sep f, of new] show ?case by simp
qed

lemma str_in_mid: "str_in p (a @ p @ r)"
proof (induction a)
  case Nil
  have "startswith (p @ r) p" by simp
  then show ?case by (cases "p @ r") auto
next
  case (Cons x a)
  then show ?case by simp
qed

lemma str_in_join: "2 \<le> length ps \<Longrightarrow> str_in p (str_join p ps)"
proof -
  assume "2 \<le> length ps"
  then obtain x y ys where "ps = x # y # ys" by (cases ps; cases "tl ps") auto
  then show ?thesis by (simp add: str_in_mid)
qed


lemma markers_ne: "feed_marker \<noteq> []" "contents_marker \<noteq> []"
  by (simp_all add: feed_marker_def contents_marker_def ustr_def)

subsection \<open>The pattern of the navigation element\<close>

lemma nav_re_alt:
  "nav_re = Open 1 # lit ''<nav'' @ WordB # Star (NotIn [Lit 62]) # One (Is (Lit 62)) # Close 1
              # Open 2 # Lazy (In [S, NS]) # nav_tail"
  by (simp add: nav_re_def nav_tail_def)

lemma sub_spent: "spent cnt \<Longrightarrow> re_sub_from U fl re repl cnt bef rest = rest"
  by (subst re_sub_from.simps) simp

lemma sub_None_cnt:
  "\<not> spent cnt \<Longrightarrow> m U fl re bef rest (\<lambda>n. 0) no_groups = None \<Longrightarrow>
   re_sub_from U fl re repl cnt bef rest =
     (case rest of [] \<Rightarrow> [] | x # xs \<Rightarrow> x # re_sub_from U fl re repl cnt (x # bef) xs)"
  by (subst re_sub_from.simps) simp

lemma sub_Some_cnt:
  "\<not> spent cnt \<Longrightarrow> m U fl re bef rest (\<lambda>n. 0) no_groups = Some (bef', rest', g) \<Longrightarrow>
   length rest' < length rest \<Longrightarrow>
   re_sub_from U fl re repl cnt bef rest =
     repl (g(0 := Some (take (length rest - length rest') rest)))
       @ re_sub_from U fl re repl (less_one cnt) bef' rest'"
  by (subst re_sub_from.simps) simp

lemma nf: "\<not> ignorecase no_flags"
  by (simp add: no_flags_def)

lemma m_nav_fail:
  assumes "\<not> startswith r (ustr ''<nav'')"
  shows "m U no_flags nav_re b r st g = None"
proof -
  have "m U no_flags (lit ''<nav'' @ WordB # Star (NotIn [Lit 62]) # One (Is (Lit 62)) # Close 1
              # Open 2 # Lazy (In [S, NS]) # nav_tail) b r (st(1 := length b)) g = None"
    using nf assms by (rule m_lit_fail)
  then show ?thesis by (simp only: nav_re_alt m.simps(10))
qed

lemma m_nav_tail_fail:
  assumes "\<not> startswith r (ustr ''</nav>'')"
  shows "m U no_flags nav_tail b r st g = None"
proof -
  have "\<And>st g. m U no_flags (lit ''</nav>'' @ [Close 3]) b r st g = None"
    using nf assms by (rule m_lit_fail)
  then show ?thesis by (simp only: nav_tail_def append.simps m.simps(10) m.simps(11))
qed

lemma m_nav_tail:
  "m U no_flags nav_tail (rev inner @ b) (ustr ''</nav>'' @ post) (st(2 := length b)) g
     = Some (rev (ustr ''</nav>'') @ rev inner @ b, post,
             g(2 := Some inner, 3 := Some (ustr ''</nav>'')))"
proof -
  let ?g = "g(2 := Some inner)"
  let ?st = "(st(2 := length b))(3 := length (rev inner @ b))"
  have "m U no_flags (lit ''</nav>'' @ [Close 3]) (rev inner @ b) (ustr ''</nav>'' @ post) ?st ?g
          = m U no_flags [Close 3] (rev (ustr ''</nav>'') @ rev inner @ b) post ?st ?g"
    using nf by (rule m_lit)
  also have "\<dots> = Some (rev (ustr ''</nav>'') @ rev inner @ b, post, ?g(3 := Some (ustr ''</nav>'')))"
    by (simp add: ustr_def)
  finally have "m U no_flags (Open 3 # lit ''</nav>'' @ [Close 3]) (rev inner @ b)
                  (ustr ''</nav>'' @ post) (st(2 := length b)) ?g
                = Some (rev (ustr ''</nav>'') @ rev inner @ b, post, ?g(3 := Some (ustr ''</nav>'')))"
    by (simp only: m.simps(10))
  then show ?thesis by (simp add: nav_tail_def)
qed

lemma any_char: "list_all (cls_match U fl (In [S, NS])) ws"
  by (induction ws) simp_all

lemma m_nav_inner:
  assumes "\<not> str_in (ustr ''</nav>'') inner"
  shows "m U no_flags (Lazy (In [S, NS]) # nav_tail) b (inner @ ustr ''</nav>'' @ post)
           (st(2 := length b)) g
         = Some (rev (ustr ''</nav>'') @ rev inner @ b, post,
                 g(2 := Some inner, 3 := Some (ustr ''</nav>'')))"
proof (rule m_lazy_min)
  show "list_all (cls_match U no_flags (In [S, NS])) inner" by (rule any_char)
  show "m U no_flags nav_tail (rev inner @ b) (ustr ''</nav>'' @ post) (st(2 := length b)) g
          = Some (rev (ustr ''</nav>'') @ rev inner @ b, post,
                  g(2 := Some inner, 3 := Some (ustr ''</nav>'')))"
    by (rule m_nav_tail)
  fix i assume "i < length inner"
  with assms have "\<not> startswith (drop i inner @ 60 # [47, 110, 97, 118, 62] @ post) (60 # [47, 110, 97, 118, 62])"
    by (intro no_straddle) (simp_all add: ustr_def)
  then have "\<not> startswith (drop i inner @ ustr ''</nav>'' @ post) (ustr ''</nav>'')"
    by (simp add: ustr_def)
  then show "m U no_flags nav_tail (rev (take i inner) @ b) (drop i inner @ ustr ''</nav>'' @ post)
               (st(2 := length b)) g = None"
    by (rule m_nav_tail_fail)
qed


lemma m_one_lit:
  "\<not> ignorecase fl \<Longrightarrow> m U fl (One (Is (Lit c)) # is) b (c # r) st g = m U fl is (c # b) r st g"
  by simp

lemma word_118: "is_word U 118" "\<not> is_word U 62"
  by (simp_all add: is_word_def)

lemma m_nav_match:
  assumes a1: "62 \<notin> set attrs" and a2: "attrs = [] \<or> \<not> is_word U (hd attrs)"
    and a3: "\<not> str_in (ustr ''</nav>'') inner"
  shows "m U no_flags nav_re b (ustr ''<nav'' @ attrs @ 62 # inner @ ustr ''</nav>'' @ post) st g
           = Some (rev (ustr ''</nav>'') @ rev inner @ 62 # rev attrs @ rev (ustr ''<nav'') @ b, post,
                   g(1 := Some (ustr ''<nav'' @ attrs @ [62]), 2 := Some inner,
                     3 := Some (ustr ''</nav>'')))"
proof -
  let ?N = "ustr ''<nav''" and ?E = "ustr ''</nav>''"
  let ?b1 = "rev ?N @ b"
  let ?b2 = "62 # rev attrs @ ?b1"
  let ?st1 = "st(1 := length b)"
  let ?g1 = "g(1 := Some (?N @ attrs @ [62]))"
  let ?rest2 = "inner @ ?E @ post"
  let ?res = "Some (rev ?E @ rev inner @ ?b2, post, ?g1(2 := Some inner, 3 := Some ?E))"
  have i: "m U no_flags (Lazy (In [S, NS]) # nav_tail) ?b2 ?rest2 (?st1(2 := length ?b2)) ?g1 = ?res"
    using a3 by (rule m_nav_inner)
  then have ii: "m U no_flags (Open 2 # Lazy (In [S, NS]) # nav_tail) ?b2 ?rest2 ?st1 ?g1 = ?res"
    by (simp only: m.simps(10))
  have "take (length (62 # rev attrs @ rev ?N)) ((62 # rev attrs @ rev ?N) @ b) = 62 # rev attrs @ rev ?N"
    by (simp only: take_append take_all order_refl diff_self_eq_0 take_0 append_Nil2)
  moreover have "length ?b2 - ?st1 1 = length (62 # rev attrs @ rev ?N)" by simp
  ultimately have "take (length ?b2 - ?st1 1) ?b2 = 62 # rev attrs @ rev ?N" by simp
  then have k: "rev (take (length ?b2 - ?st1 1) ?b2) = ?N @ attrs @ [62]" by simp
  from ii have iii: "m U no_flags (Close 1 # Open 2 # Lazy (In [S, NS]) # nav_tail) ?b2 ?rest2 ?st1 g = ?res"
    by (simp only: m.simps(11) k)
  then have iv: "m U no_flags (One (Is (Lit 62)) # Close 1 # Open 2 # Lazy (In [S, NS]) # nav_tail)
                   (rev attrs @ ?b1) (62 # ?rest2) ?st1 g = ?res"
    by (simp only: m_one_lit [OF nf])
  have v: "m U no_flags (Star (NotIn [Lit 62]) # One (Is (Lit 62)) # Close 1 # Open 2
                # Lazy (In [S, NS]) # nav_tail) ?b1 (attrs @ 62 # ?rest2) ?st1 g = ?res"
  proof (rule m_star_max)
    show "list_all (cls_match U no_flags (NotIn [Lit 62])) attrs"
      using a1 by (induction attrs) (simp_all add: no_flags_def)
    show "62 # ?rest2 = [] \<or> \<not> cls_match U no_flags (NotIn [Lit 62]) (hd (62 # ?rest2))"
      by (simp add: no_flags_def)
    show "m U no_flags (One (Is (Lit 62)) # Close 1 # Open 2 # Lazy (In [S, NS]) # nav_tail)
            (rev attrs @ ?b1) (62 # ?rest2) ?st1 g = ?res" by (rule iv)
  qed
  have wb: "at_wordb U ?b1 (attrs @ 62 # ?rest2)"
    using a2 word_118 [of U] by (cases attrs) (simp_all add: at_wordb_def ustr_def)
  with v have vi: "m U no_flags (WordB # Star (NotIn [Lit 62]) # One (Is (Lit 62)) # Close 1 # Open 2
                # Lazy (In [S, NS]) # nav_tail) ?b1 (attrs @ 62 # ?rest2) ?st1 g = ?res"
    by (simp only: m.simps(9) if_True)
  have "m U no_flags (lit ''<nav'' @ WordB # Star (NotIn [Lit 62]) # One (Is (Lit 62)) # Close 1 # Open 2
                # Lazy (In [S, NS]) # nav_tail) b (?N @ attrs @ 62 # ?rest2) ?st1 g = ?res"
    using vi by (simp only: m_lit [OF nf])
  then have "m U no_flags nav_re b (?N @ attrs @ 62 # ?rest2) st g = ?res"
    by (simp only: nav_re_alt m.simps(10))
  then show ?thesis by simp
qed

lemma nav_sub_skip:
  "\<not> spent cnt \<Longrightarrow> (\<And>i. i < length pre \<Longrightarrow> \<not> startswith (drop i pre @ s) (ustr ''<nav'')) \<Longrightarrow>
   re_sub_from U no_flags nav_re repl cnt bef (pre @ s)
     = pre @ re_sub_from U no_flags nav_re repl cnt (rev pre @ bef) s"
proof (induction pre arbitrary: bef)
  case Nil
  then show ?case by simp
next
  case (Cons x pre)
  from Cons.prems(2) [of 0] have "\<not> startswith ((x # pre) @ s) (ustr ''<nav'')" by simp
  then have n: "m U no_flags nav_re bef ((x # pre) @ s) (\<lambda>n. 0) no_groups = None"
    by (rule m_nav_fail)
  have "re_sub_from U no_flags nav_re repl cnt (x # bef) (pre @ s)
          = pre @ re_sub_from U no_flags nav_re repl cnt (rev pre @ x # bef) s"
  proof (rule Cons.IH [OF Cons.prems(1)])
    fix i assume "i < length pre"
    then show "\<not> startswith (drop i pre @ s) (ustr ''<nav'')"
      using Cons.prems(2) [of "Suc i"] by simp
  qed
  with sub_None_cnt [OF Cons.prems(1) n, of repl] show ?case by simp
qed

lemma nav_replaced_lemma:
  assumes out: "out_html = pre @ ustr ''<nav'' @ attrs @ 62 # inner @ ustr ''</nav>'' @ post"
    and nc: "\<not> str_in contents_marker out_html"
    and np: "\<not> str_in (ustr ''<nav'') pre"
    and a1: "62 \<notin> set attrs" and a2: "attrs = [] \<or> \<not> is_word U (hd attrs)"
    and a3: "\<not> str_in (ustr ''</nav>'') inner"
  shows "insert_contents U out_html contents
           = pre @ ustr ''<nav'' @ attrs @ 62 # 10 # contents @ 10 # ustr ''</nav>'' @ post"
proof -
  let ?s = "ustr ''<nav'' @ attrs @ 62 # inner @ ustr ''</nav>'' @ post"
  let ?repl = "\<lambda>g. grp g 1 @ [10] @ contents @ [10] @ grp g 3"
  have c1: "\<not> spent (Some 1)" by simp
  have sk: "\<And>i. i < length pre \<Longrightarrow> \<not> startswith (drop i pre @ ?s) (ustr ''<nav'')"
  proof -
    fix i assume "i < length pre"
    with np have "\<not> startswith (drop i pre @ 60 # [110, 97, 118] @ (attrs @ 62 # inner @ ustr ''</nav>'' @ post))
                    (60 # [110, 97, 118])"
      by (intro no_straddle) (simp_all add: ustr_def)
    then show "\<not> startswith (drop i pre @ ?s) (ustr ''<nav'')" by (simp add: ustr_def)
  qed
  let ?b' = "rev (ustr ''</nav>'') @ rev inner @ 62 # rev attrs @ rev (ustr ''<nav'') @ rev pre"
  have mm: "m U no_flags nav_re (rev pre) ?s (\<lambda>n. 0) no_groups
              = Some (?b', post, no_groups(1 := Some (ustr ''<nav'' @ attrs @ [62]), 2 := Some inner,
                     3 := Some (ustr ''</nav>'')))"
    using a1 a2 a3 by (rule m_nav_match)
  have lt: "length post < length ?s" by simp
  have "re_sub_from U no_flags nav_re ?repl (Some 1) (rev pre) ?s
          = (ustr ''<nav'' @ attrs @ [62]) @ [10] @ contents @ [10] @ ustr ''</nav>''
              @ re_sub_from U no_flags nav_re ?repl (Some 0) ?b' post"
    using sub_Some_cnt [OF c1 mm lt, of ?repl] by (simp add: grp_def)
  also have "re_sub_from U no_flags nav_re ?repl (Some 0) ?b' post = post"
    by (rule sub_spent) simp
  finally have r: "re_sub_from U no_flags nav_re ?repl (Some 1) (rev pre) ?s
          = ustr ''<nav'' @ attrs @ 62 # 10 # contents @ 10 # ustr ''</nav>'' @ post" by simp
  have "re_sub U no_flags nav_re ?repl (Some 1) out_html
          = pre @ ustr ''<nav'' @ attrs @ 62 # 10 # contents @ 10 # ustr ''</nav>'' @ post"
    unfolding re_sub_def out using nav_sub_skip [OF c1 sk, of U ?repl "[]"] r by simp
  moreover have "str_in (ustr ''<nav'') out_html" unfolding out by (rule str_in_mid)
  moreover have "str_in (ustr ''</nav>'') out_html"
    using str_in_mid [of "ustr ''</nav>''" "pre @ ustr ''<nav'' @ attrs @ 62 # inner" post]
    by (simp add: out)
  ultimately show ?thesis using nc by (simp add: insert_contents_def)
qed

subsection \<open>The heading patterns, line by line\<close>
















subsection \<open>A text and its lines\<close>








subsection \<open>A text without an empty line, through the last steps\<close>













section \<open>The claims\<close>

subsection \<open>C2: the post \<open># Hello\<close>, \<open>World\<close>\<close>

text \<open>
  C2 (as stated): \<open>compile_markdown\<close> turns the two lines \<open># Hello\<close> and \<open>World\<close> into the
  heading, an empty line and the paragraph \<open><p>World</p>\<close>.  It does not: the two lines
  are separated by one line feed only, so they stay one block, and a block that begins
  with a heading tag is passed through as it is.
\<close>

theorem compile_hello_world_not_paragraph:
  "compile_markdown sample_tables (ustr ''# Hello'' @ [10] @ ustr ''World'')
     \<noteq> ustr ''<h2>Hello</h2>'' @ [10, 10] @ ustr ''<p>World</p>''"
  by code_simp

text \<open>
  C2 (amended): for the input \<open># Hello\<close>, line feed, \<open>World\<close> the result is exactly
  \<open><h2>Hello</h2>\<close>, one line feed, \<open>World\<close>: the heading line becomes a level-2 heading
  and the next line stays in the same block, unwrapped.  With an empty line between the
  two lines the result is the heading, an empty line and \<open><p>World</p>\<close>.
\<close>

theorem compile_hello_world:
  "compile_markdown U (ustr ''# Hello'' @ [10] @ ustr ''World'')
     = ustr ''<h2>Hello</h2>'' @ [10] @ ustr ''World''
   \<and> compile_markdown U (ustr ''# Hello'' @ [10, 10] @ ustr ''World'')
     = ustr ''<h2>Hello</h2>'' @ [10, 10] @ ustr ''<p>World</p>''"
  by code_simp

subsection \<open>C9: the two fatal cases\<close>



subsection \<open>C8: slugify twice\<close>

text \<open>
  C8 (as stated): \<open>slugify (slugify x) = slugify x\<close> for every string \<open>x\<close>.  It fails for
  the one-letter name U+0130: \<open>str.lower\<close> turns the letter into \<open>i\<close> followed by the
  combining dot U+0307, which is no word character, so the second pass replaces the dot
  by a hyphen and strips it.
\<close>

theorem slugify_not_idempotent:
  "slugify sample_tables [304] = [105, 775]
   \<and> slugify sample_tables (slugify sample_tables [304]) = [105]"
  by code_simp

text \<open>
  C8 (amended): \<open>slugify (slugify x) = slugify x\<close> for every string \<open>x\<close> of ASCII
  characters.
\<close>

theorem slugify_idempotent_ascii:
  assumes "list_all (\<lambda>c. c < 128) x"
  shows "slugify U (slugify U x) = slugify U x"
proof -
  let ?s0 = "re_sub U no_flags slug_re (\<lambda>g. ustr ''-'') None x"
  let ?s1 = "str_strip_set (ustr ''-'') ?s0"
  let ?s2 = "str_lower U ?s1"
  have d: "ustr ''-'' = [45]" by (simp add: ustr_def)
  have c0: "list_all (slug_char U) ?s0" by (simp add: re_sub_def d slug_sub_chars)
  have a0: "list_all (\<lambda>c. c < 128) ?s0"
    using slug_sub_set [of U "[]" x] assms by (auto simp: re_sub_def d list_all_iff)
  have sub: "set ?s1 \<subseteq> set ?s0" by (simp add: str_strip_set_def strip_chars_set)
  from c0 sub have c1: "list_all (slug_char U) ?s1" by (auto simp: list_all_iff)
  from a0 sub have a1: "list_all (\<lambda>c. c < 128) ?s1" by (auto simp: list_all_iff)
  from a1 have s2: "?s2 = map ascii_lower ?s1" by (simp add: str_lower_def)
  show ?thesis
  proof (cases "?s2 = []")
    case True
    then have "slugify U x = ustr ''post''" by (simp add: slugify_def Let_def)
    then show ?thesis by (simp add: slugify_post)
  next
    case False
    then have ne: "?s1 \<noteq> []" using s2 by auto
    have e: "slugify U x = ?s2" using False by (simp add: slugify_def Let_def)
    have f: "list_all (slug_fix U) ?s2"
      using c1 a1 unfolding s2 by (auto simp: list_all_iff ascii_lower_fix)
    have ends: "hd ?s1 \<noteq> 45 \<and> last ?s1 \<noteq> 45"
      using strip_chars_ends [of "\<lambda>c. c \<in> set (ustr ''-'')" ?s0] ne
      by (simp add: str_strip_set_def d)
    have "hd ?s2 \<noteq> 45" "last ?s2 \<noteq> 45"
      using ends ne unfolding s2 by (simp_all add: hd_map last_map ascii_lower_45)
    from slugify_fixed [OF False f this] e show ?thesis by simp
  qed
qed

theorem slugify_idempotent_ascii_witness:
  "list_all (\<lambda>c. c < 128) (ustr ''My Post!.md'')
   \<and> slugify sample_tables (ustr ''My Post!.md'') = ustr ''my-post-md''
   \<and> slugify sample_tables (slugify sample_tables (ustr ''My Post!.md''))
       = slugify sample_tables (ustr ''My Post!.md'')"
proof -
  have h: "list_all (\<lambda>c. c < 128) (ustr ''My Post!.md'')" by code_simp
  have v: "slugify sample_tables (ustr ''My Post!.md'') = ustr ''my-post-md''" by code_simp
  from slugify_idempotent_ascii [OF h, of sample_tables] h v show ?thesis by simp
qed

subsection \<open>C5: the levels of the headings\<close>

text \<open>
  C5: a line that begins with exactly three, two or one hash mark becomes a heading of
  level 4, 3 or 2, and a line that begins with any other number of hash marks, four or
  more for one, is not converted by the heading step.  The code does convert the line
  of four hash marks: the pattern for three hash marks has nothing that stops it in
  front of a fourth, so it matches the first three, and the fourth hash mark and the
  blank behind it end up in the text of a heading of level 4.  The claim leaves the
  line \<open>#### Title\<close> as it is.
\<close>

theorem heading_four_hashes:
  "heading_step sample_tables (ustr ''#### Title'') = ustr ''<h4># Title</h4>''"
  by code_simp


subsection \<open>C6: the title of a post\<close>

text \<open>
  C6: \<open>extract_title\<close> returns the trimmed text of the first line that is a heading of
  level 1.  The code does not, where a line holds a lone hash mark: \<^verbatim>\<open>\s+\<close> also
  matches the line feed behind it, and the text of the following line, hash mark
  included, is returned.  Here the second line is the first heading of level 1 and its
  text is \<open>Real\<close>.
\<close>

theorem extract_title_lone_hash:
  "extract_title sample_tables (ustr ''#'' @ [10] @ ustr ''# Real'') (ustr ''untitled'')
     = ustr ''# Real''"
  by code_simp

subsection \<open>C10: the two views of a heading\<close>




subsection \<open>C7: fenced code blocks\<close>

text \<open>
  C7 (as stated): every fenced block with a language tag free of whitespace becomes a
  \<open>pre\<close>/\<open>code\<close> element.  The pattern takes a tag of word characters only: with the tag
  \<open>c++\<close> nothing matches, and the three lines end up as one paragraph.
\<close>

theorem code_block_tag_with_plus:
  "compile_markdown sample_tables (ustr ''```c++'' @ [10] @ ustr ''x'' @ [10] @ ustr ''```'')
     = ustr ''<p>```c++<br>x<br>```</p>''"
  by code_simp

text \<open>
  C7 (amended): in a text with any number of fenced blocks, where each tag consists of
  word characters (none of them whitespace), no content has a line beginning with three
  backticks and the text around the blocks has no backtick, the code step replaces
  every block by a \<open>pre\<close>/\<open>code\<close> element that holds the escaped content; the \<open>code\<close>
  tag carries the class \<open>language-\<close> followed by the escaped tag where there is a tag
  and no class where there is none; the text around the blocks is unchanged.  The
  block \<open>python\<close>, \<open>print(1)\<close> compiles to the element with the class
  \<open>language-python\<close>, with no paragraph around it.
\<close>

theorem code_blocks_replaced:
  assumes "list_all (fence_ok U) fs" and "96 \<notin> set post"
  shows "code_step U (doc_text fs post) = doc_html fs post
         \<and> compile_markdown U (ustr ''```python'' @ [10] @ ustr ''print(1)'' @ [10] @ ustr ''```'')
             = ustr ''<pre><code class='' @ [39] @ ustr ''language-python'' @ [39]
                 @ ustr ''>print(1)</code></pre>''"
proof (rule conjI)
  show "code_step U (doc_text fs post) = doc_html fs post"
    using assms by (rule code_step_doc)
  show "compile_markdown U (ustr ''```python'' @ [10] @ ustr ''print(1)'' @ [10] @ ustr ''```'')
          = ustr ''<pre><code class='' @ [39] @ ustr ''language-python'' @ [39]
              @ ustr ''>print(1)</code></pre>''"
    by (rule compile_python_example)
qed

theorem code_blocks_replaced_witness:
  "list_all (fence_ok sample_tables)
     [(ustr ''Intro'' @ [10], ustr ''python'', ustr ''if a < b:'' @ [10] @ ustr ''    print(1)''),
      ([10] @ ustr ''Then'' @ [10], [], ustr ''x & y'')]
   \<and> 96 \<notin> set ([10] @ ustr ''End'')
   \<and> code_step sample_tables
        (ustr ''Intro'' @ [10] @ ustr ''```python'' @ [10] @ ustr ''if a < b:'' @ [10]
           @ ustr ''    print(1)'' @ [10] @ ustr ''```'' @ [10] @ ustr ''Then'' @ [10]
           @ ustr ''```'' @ [10] @ ustr ''x & y'' @ [10] @ ustr ''```'' @ [10] @ ustr ''End'')
      = ustr ''Intro'' @ [10] @ ustr ''<pre><code class='' @ [39] @ ustr ''language-python'' @ [39]
          @ ustr ''>if a &lt; b:'' @ [10] @ ustr ''    print(1)</code></pre>'' @ [10]
          @ ustr ''Then'' @ [10] @ ustr ''<pre><code>x &amp; y</code></pre>'' @ [10] @ ustr ''End''"
proof -
  let ?fs = "[(ustr ''Intro'' @ [10], ustr ''python'', ustr ''if a < b:'' @ [10] @ ustr ''    print(1)''),
      ([10] @ ustr ''Then'' @ [10], [], ustr ''x & y'')]"
  have h1: "list_all (fence_ok sample_tables) ?fs" by code_simp
  have h2: "96 \<notin> set ([10] @ ustr ''End'')" by (simp add: ustr_def)
  have t: "doc_text ?fs ([10] @ ustr ''End'') =
             ustr ''Intro'' @ [10] @ ustr ''```python'' @ [10] @ ustr ''if a < b:'' @ [10]
           @ ustr ''    print(1)'' @ [10] @ ustr ''```'' @ [10] @ ustr ''Then'' @ [10]
           @ ustr ''```'' @ [10] @ ustr ''x & y'' @ [10] @ ustr ''```'' @ [10] @ ustr ''End''"
    by code_simp
  have d: "doc_html ?fs ([10] @ ustr ''End'') =
             ustr ''Intro'' @ [10] @ ustr ''<pre><code class='' @ [39] @ ustr ''language-python'' @ [39]
          @ ustr ''>if a &lt; b:'' @ [10] @ ustr ''    print(1)</code></pre>'' @ [10]
          @ ustr ''Then'' @ [10] @ ustr ''<pre><code>x &amp; y</code></pre>'' @ [10] @ ustr ''End''"
    by code_simp
  from code_blocks_replaced [OF h1 h2] h1 h2 show ?thesis unfolding t d by blast
qed

subsection \<open>C1: fenced content and the later steps\<close>

text \<open>
  C1: the heading, autolink and paragraph steps never work on what stood inside a
  fenced block; no line of fenced content that begins with a hash mark becomes a
  heading.  The code has no means to keep that promise: the code step escapes the
  content and puts it between the tags of the container, line feeds included, and the
  later patterns run over the whole text again.  For the fence with the two lines
  \<open>a\<close> and \<open># b\<close> the second line of the content becomes a heading of level 2, whose
  closing tag stands behind the closing tags of the container; the claim gives the
  container with the two lines unchanged inside.
\<close>

theorem fenced_line_becomes_heading:
  "compile_markdown sample_tables (ustr ''```'' @ [10] @ ustr ''a'' @ [10] @ ustr ''# b'' @ [10] @ ustr ''```'')
     = ustr ''<pre><code>a'' @ [10] @ ustr ''<h2>b</code></pre></h2>''"
  by code_simp


subsection \<open>C4: the two marker tokens\<close>

text \<open>
  C4 (as stated): where the two tokens occur in the template, only the first occurrence
  of each is replaced.  \<open>str.replace\<close> is called without a count and replaces every
  occurrence: here the feed token stands twice and both are replaced.
\<close>

theorem marker_replaced_twice:
  "insert_feed sample_tables no_lib
     (ustr ''###BLOGS###|###BLOGS###|###BLOG-CONTENTS###'') (ustr ''POSTS'')
     = Inr (ustr ''POSTS|POSTS|###BLOG-CONTENTS###'')
   \<and> insert_contents sample_tables (ustr ''POSTS|POSTS|###BLOG-CONTENTS###'') (ustr ''LIST'')
     = ustr ''POSTS|POSTS|LIST''"
  by code_simp

text \<open>
  C4 (amended): read the template as pieces with the feed token between them, the
  token beginning nowhere else; the feed insertion returns the same pieces with the
  feed between them.  Read that result as pieces with the contents token between them,
  the token beginning nowhere else; the contents insertion returns the same pieces
  with the contents list between them.  So every occurrence of a token is replaced and
  all text between the occurrences is unchanged; with one occurrence of each token
  (two pieces) there is exactly one replacement for each.
\<close>

theorem markers_replaced:
  assumes "tpl = str_join feed_marker ps" and "2 \<le> length ps"
    and "occurrences feed_marker tpl = length ps - 1"
    and "str_join posts ps = str_join contents_marker qs" and "2 \<le> length qs"
    and "occurrences contents_marker (str_join posts ps) = length qs - 1"
  shows "insert_feed U lib tpl posts = Inr (str_join posts ps)
         \<and> insert_contents U (str_join posts ps) contents = str_join contents qs"
proof
  from assms(2) have ps: "ps \<noteq> []" by auto
  have "str_in feed_marker tpl" unfolding assms(1) using assms(2) by (rule str_in_join)
  moreover have "str_replace feed_marker posts tpl = str_join posts ps"
    unfolding assms(1) using markers_ne(1) ps assms(3) [unfolded assms(1)] by (rule replace_join)
  ultimately show "insert_feed U lib tpl posts = Inr (str_join posts ps)"
    by (simp add: insert_feed_def)
next
  from assms(5) have qs: "qs \<noteq> []" by auto
  have "str_in contents_marker (str_join posts ps)"
    unfolding assms(4) using assms(5) by (rule str_in_join)
  moreover have "str_replace contents_marker contents (str_join posts ps) = str_join contents qs"
    unfolding assms(4) using markers_ne(2) qs assms(6) [unfolded assms(4)] by (rule replace_join)
  ultimately show "insert_contents U (str_join posts ps) contents = str_join contents qs"
    by (simp add: insert_contents_def)
qed

theorem markers_replaced_witness:
  "ustr ''<main>###BLOGS###</main><nav>###BLOG-CONTENTS###</nav>''
     = str_join feed_marker [ustr ''<main>'', ustr ''</main><nav>###BLOG-CONTENTS###</nav>'']
   \<and> (2::nat) \<le> length [ustr ''<main>'', ustr ''</main><nav>###BLOG-CONTENTS###</nav>'']
   \<and> occurrences feed_marker (ustr ''<main>###BLOGS###</main><nav>###BLOG-CONTENTS###</nav>'')
       = length [ustr ''<main>'', ustr ''</main><nav>###BLOG-CONTENTS###</nav>''] - 1
   \<and> str_join (ustr ''POSTS'') [ustr ''<main>'', ustr ''</main><nav>###BLOG-CONTENTS###</nav>'']
       = str_join contents_marker [ustr ''<main>POSTS</main><nav>'', ustr ''</nav>'']
   \<and> (2::nat) \<le> length [ustr ''<main>POSTS</main><nav>'', ustr ''</nav>'']
   \<and> occurrences contents_marker
         (str_join (ustr ''POSTS'') [ustr ''<main>'', ustr ''</main><nav>###BLOG-CONTENTS###</nav>''])
       = length [ustr ''<main>POSTS</main><nav>'', ustr ''</nav>''] - 1
   \<and> insert_feed sample_tables no_lib
         (ustr ''<main>###BLOGS###</main><nav>###BLOG-CONTENTS###</nav>'') (ustr ''POSTS'')
       = Inr (ustr ''<main>POSTS</main><nav>###BLOG-CONTENTS###</nav>'')
   \<and> insert_contents sample_tables (ustr ''<main>POSTS</main><nav>###BLOG-CONTENTS###</nav>'')
         (ustr ''LIST'')
       = ustr ''<main>POSTS</main><nav>LIST</nav>''"
proof -
  let ?ps = "[ustr ''<main>'', ustr ''</main><nav>###BLOG-CONTENTS###</nav>'']"
  let ?qs = "[ustr ''<main>POSTS</main><nav>'', ustr ''</nav>'']"
  let ?tpl = "ustr ''<main>###BLOGS###</main><nav>###BLOG-CONTENTS###</nav>''"
  have 1: "?tpl = str_join feed_marker ?ps" by code_simp
  have 2: "(2::nat) \<le> length ?ps" by simp
  have 3: "occurrences feed_marker ?tpl = length ?ps - 1" by code_simp
  have 4: "str_join (ustr ''POSTS'') ?ps = str_join contents_marker ?qs" by code_simp
  have 5: "(2::nat) \<le> length ?qs" by simp
  have 6: "occurrences contents_marker (str_join (ustr ''POSTS'') ?ps) = length ?qs - 1" by code_simp
  have a: "str_join (ustr ''POSTS'') ?ps = ustr ''<main>POSTS</main><nav>###BLOG-CONTENTS###</nav>''"
    by code_simp
  have b: "str_join (ustr ''LIST'') ?qs = ustr ''<main>POSTS</main><nav>LIST</nav>''"
    by code_simp
  from markers_replaced [OF 1 2 3 4 5 6, of sample_tables no_lib "ustr ''LIST''"]
  have "insert_feed sample_tables no_lib ?tpl (ustr ''POSTS'')
          = Inr (ustr ''<main>POSTS</main><nav>###BLOG-CONTENTS###</nav>'')
        \<and> insert_contents sample_tables (ustr ''<main>POSTS</main><nav>###BLOG-CONTENTS###</nav>'')
            (ustr ''LIST'') = ustr ''<main>POSTS</main><nav>LIST</nav>''"
    unfolding a b .
  with 1 2 3 4 5 6 show ?thesis by blast
qed

subsection \<open>C3: the contents list in the navigation element\<close>

text \<open>
  C3 (as stated): the contents list is put right behind the opening tag of the first
  navigation element and what stood in the element stays.  It does not stay: the
  replacement is built from the opening tag, the contents list and the closing tag,
  and the old content (group 2 of the pattern) is not part of it.
\<close>

theorem nav_content_dropped:
  "insert_contents sample_tables (ustr ''<nav><b>Home</b></nav><main>P</main>'') (ustr ''LIST'')
     = ustr ''<nav>'' @ [10] @ ustr ''LIST'' @ [10] @ ustr ''</nav><main>P</main>''"
  by code_simp

text \<open>
  C3 (amended): where the text has no contents marker and holds a navigation element,
  everything between the first opening tag \<open><nav ...>\<close> and the first \<open></nav>\<close> behind it
  is replaced by a line feed, the contents list and a line feed.  The text before the
  opening tag, the opening tag, the closing tag and the text behind it are unchanged;
  what stood in the element is gone.
\<close>

theorem nav_contents_replaced:
  assumes "out_html = pre @ ustr ''<nav'' @ attrs @ 62 # inner @ ustr ''</nav>'' @ post"
    and "\<not> str_in contents_marker out_html"
    and "\<not> str_in (ustr ''<nav'') pre"
    and "62 \<notin> set attrs" and "attrs = [] \<or> \<not> is_word U (hd attrs)"
    and "\<not> str_in (ustr ''</nav>'') inner"
  shows "insert_contents U out_html contents
           = pre @ ustr ''<nav'' @ attrs @ 62 # 10 # contents @ 10 # ustr ''</nav>'' @ post"
  using assms by (rule nav_replaced_lemma)

theorem nav_contents_replaced_witness:
  "ustr ''<p>x</p><nav id=top><b>Home</b></nav><main>P</main>''
     = ustr ''<p>x</p>'' @ ustr ''<nav'' @ ustr '' id=top'' @ 62 # ustr ''<b>Home</b>''
         @ ustr ''</nav>'' @ ustr ''<main>P</main>''
   \<and> \<not> str_in contents_marker (ustr ''<p>x</p><nav id=top><b>Home</b></nav><main>P</main>'')
   \<and> \<not> str_in (ustr ''<nav'') (ustr ''<p>x</p>'')
   \<and> 62 \<notin> set (ustr '' id=top'')
   \<and> (ustr '' id=top'' = [] \<or> \<not> is_word sample_tables (hd (ustr '' id=top'')))
   \<and> \<not> str_in (ustr ''</nav>'') (ustr ''<b>Home</b>'')
   \<and> insert_contents sample_tables
         (ustr ''<p>x</p><nav id=top><b>Home</b></nav><main>P</main>'') (ustr ''LIST'')
       = ustr ''<p>x</p>'' @ ustr ''<nav'' @ ustr '' id=top'' @ 62 # 10 # ustr ''LIST''
           @ 10 # ustr ''</nav>'' @ ustr ''<main>P</main>''"
proof -
  have 1: "ustr ''<p>x</p><nav id=top><b>Home</b></nav><main>P</main>''
     = ustr ''<p>x</p>'' @ ustr ''<nav'' @ ustr '' id=top'' @ 62 # ustr ''<b>Home</b>''
         @ ustr ''</nav>'' @ ustr ''<main>P</main>''" by code_simp
  have 2: "\<not> str_in contents_marker (ustr ''<p>x</p><nav id=top><b>Home</b></nav><main>P</main>'')"
    by code_simp
  have 3: "\<not> str_in (ustr ''<nav'') (ustr ''<p>x</p>'')" by code_simp
  have 4: "62 \<notin> set (ustr '' id=top'')" by (simp add: ustr_def)
  have 5: "ustr '' id=top'' = [] \<or> \<not> is_word sample_tables (hd (ustr '' id=top''))" by code_simp
  have 6: "\<not> str_in (ustr ''</nav>'') (ustr ''<b>Home</b>'')" by code_simp
  from nav_contents_replaced [OF 1 2 3 4 5 6, of "ustr ''LIST''"] 1 2 3 4 5 6 show ?thesis
    by blast
qed

end
